theory Spec2Isabelle
  imports Main
begin

section \<open>The document\<close>

text \<open>
  An element has a tag, a list of classes, its other attributes and its child elements.
  The type parameter is the identity of the element: parsed markup (an HTML fragment, as a
  response body or a history entry carries it) has none, a node of the page has a number
  that scripts keep a reference by. Text nodes are not modelled.
\<close>

datatype 'i elem =
  Elem (ident: 'i) (tag: string) (classes: "string list")
       (attrs: "(string \<times> string) list") (kids: "'i elem list")

type_synonym html = "unit elem"
type_synonym node = "nat elem"

text \<open>\<open>outerHTML\<close> of a node: its markup, identities forgotten.\<close>

definition outerHTML :: "node \<Rightarrow> html" where
  "outerHTML n = map_elem (\<lambda>_. ()) n"

text \<open>
  \<open>$(data)\<close> on a fragment creates new nodes; \<open>parseHTML k hs\<close> numbers them in
  document order from \<open>k\<close> and returns the next free number.
\<close>

fun parseHTML :: "nat \<Rightarrow> html list \<Rightarrow> node list \<times> nat" where
  "parseHTML k [] = ([], k)"
| "parseHTML k (Elem u t c a ks # rest) =
     (case parseHTML (Suc k) ks of (ks', k1) \<Rightarrow>
        (case parseHTML k1 rest of (rest', k2) \<Rightarrow>
           (Elem k t c a ks' # rest', k2)))"

text \<open>All identities of a forest, in document order.\<close>

fun ids :: "node list \<Rightarrow> nat list" where
  "ids [] = []"
| "ids (Elem i t c a ks # rest) = i # ids ks @ ids rest"

text \<open>
  The element \<open>x\<close> and its ancestors inside a forest, nearest first (empty when \<open>x\<close> is
  not there): the elements jQuery's \<open>closest\<close> walks through.
\<close>

fun chain :: "nat \<Rightarrow> node list \<Rightarrow> node list" where
  "chain x [] = []"
| "chain x (Elem i t c a ks # rest) =
     (if i = x then [Elem i t c a ks]
      else (case chain x ks of
              [] \<Rightarrow> chain x rest
            | n # ns \<Rightarrow> (n # ns) @ [Elem i t c a ks]))"

text \<open>
  Selectors are the strings of the \<open>data-replace\<close> attribute. The simple selectors are
  modelled: \<open>*\<close>, \<open>.class\<close>, \<open>#id\<close> and a tag name; compound selectors are outside the model.
\<close>

fun lookup :: "(string \<times> string) list \<Rightarrow> string \<Rightarrow> string option" where
  "lookup [] k = None"
| "lookup ((k', v) # kvs) k = (if k' = k then Some v else lookup kvs k)"

definition matches :: "string \<Rightarrow> node \<Rightarrow> bool" where
  "matches sel n =
     (if sel = ''*'' then True
      else (case sel of
              [] \<Rightarrow> False
            | ch # name \<Rightarrow>
                if ch = CHR ''.'' then name \<in> set (classes n)
                else if ch = CHR ''#'' then lookup (attrs n) ''id'' = Some name
                else tag n = sel))"

text \<open>Changing the classes of the node \<open>x\<close>, wherever it is in a tree.\<close>

fun change_classes :: "nat \<Rightarrow> (string list \<Rightarrow> string list) \<Rightarrow> node \<Rightarrow> node" where
  "change_classes x g (Elem i t c a ks) =
     Elem i t (if i = x then g c else c) a (map (change_classes x g) ks)"

text \<open>Appending a new last child to the node \<open>x\<close>, wherever it is in a tree.\<close>

fun append_child :: "nat \<Rightarrow> node \<Rightarrow> node \<Rightarrow> node" where
  "append_child x new (Elem i t c a ks) =
     Elem i t c a (map (append_child x new) ks @ (if i = x then [new] else []))"

text \<open>
  Replacing the node \<open>x\<close> by the nodes \<open>ns\<close> among the elements of a forest and their
  descendants.
\<close>

fun replace :: "nat \<Rightarrow> node list \<Rightarrow> node list \<Rightarrow> node list" where
  "replace x ns [] = []"
| "replace x ns (Elem i t c a ks # rest) =
     (if i = x then ns @ rest
      else Elem i t c a (replace x ns ks) # replace x ns rest)"

text \<open>The same below the roots of a forest only: a root has no parent to be replaced in.\<close>

definition replace_below :: "nat \<Rightarrow> node list \<Rightarrow> node list \<Rightarrow> node list" where
  "replace_below x ns f = map (\<lambda>n. Elem (ident n) (tag n) (classes n) (attrs n) (replace x ns (kids n))) f"


section \<open>The page and the jQuery operations the controller uses\<close>

text \<open>
  An AJAX request as \<open>$.ajax(url, { type, data })\<close> receives it; an absent \<open>type\<close> is
  jQuery's default, GET. A payload is the serialized field set, as name/value pairs.
\<close>

type_synonym payload = "(string \<times> string) list"

record request =
  req_url :: "string option"
  req_type :: "string option"
  req_data :: "payload option"

text \<open>
  A response body, or the \<open>data\<close> of a history entry, is a string, and what counts is what
  \<open>$(data)\<close> makes of it: \<open>Markup hs\<close> is a string that jQuery reads as HTML (it begins
  with \<open><\<close>), with \<open>hs\<close> the elements of its parse; \<open>Plain s\<close> is any other string, which
  jQuery reads as a selector.
\<close>

datatype body = Markup "html list" | Plain string

text \<open>The state object \<open>{ selector, data }\<close> of a history entry, and the two history writes.\<close>

record hstate =
  state_selector :: "string option"
  state_data :: body

datatype hist_write =
  ReplaceState hstate
| PushState hstate "string option"

text \<open>
  The page: the elements of the live document (the children of the document node), the
  subtrees that were taken out of it and that a script may still refer to, the next free
  node number, and what the controller has done so far: the notifications triggered (name
  and target), the requests issued, the history writes. \<open>pushState_supported\<close> is
  \<open>window.history && history.pushState\<close>.
\<close>

record page =
  live :: "node list"
  detached :: "node list"
  next_id :: nat
  events :: "(string \<times> nat) list"
  requests :: "request list"
  history :: "hist_write list"
  pushState_supported :: bool

text \<open>A jQuery object is the list of the nodes it holds.\<close>

type_synonym jq = "nat list"

definition node_of :: "nat \<Rightarrow> page \<Rightarrow> node option" where
  "node_of x p = (case chain x (live p @ detached p) of [] \<Rightarrow> None | n # _ \<Rightarrow> Some n)"

definition closest :: "string \<Rightarrow> jq \<Rightarrow> page \<Rightarrow> jq" where
  "closest sel this p =
     concat (map (\<lambda>x. case find (matches sel) (chain x (live p @ detached p)) of
                         None \<Rightarrow> []
                       | Some n \<Rightarrow> [ident n]) this)"

definition add_class :: "string \<Rightarrow> string list \<Rightarrow> string list" where
  "add_class c cs = (if c \<in> set cs then cs else cs @ [c])"

definition remove_class :: "string \<Rightarrow> string list \<Rightarrow> string list" where
  "remove_class c cs = filter (\<lambda>c'. c' \<noteq> c) cs"

definition on_nodes :: "(node list \<Rightarrow> node list) \<Rightarrow> page \<Rightarrow> page" where
  "on_nodes f p = p\<lparr>live := f (live p), detached := f (detached p)\<rparr>"

definition addClass :: "string \<Rightarrow> jq \<Rightarrow> page \<Rightarrow> page" where
  "addClass c this p = fold (\<lambda>x. on_nodes (map (change_classes x (add_class c)))) this p"

definition removeClass :: "string \<Rightarrow> jq \<Rightarrow> page \<Rightarrow> page" where
  "removeClass c this p = fold (\<lambda>x. on_nodes (map (change_classes x (remove_class c)))) this p"

text \<open>\<open>trigger\<close> fires the event once on every node of the jQuery object.\<close>

definition trigger :: "string \<Rightarrow> jq \<Rightarrow> page \<Rightarrow> page" where
  "trigger name this p = p\<lparr>events := events p @ map (\<lambda>x. (name, x)) this\<rparr>"

definition ajax :: "string option \<Rightarrow> string option \<Rightarrow> payload option \<Rightarrow> page \<Rightarrow> page" where
  "ajax u t d p = p\<lparr>requests := requests p @ [\<lparr>req_url = u, req_type = t, req_data = d\<rparr>]\<rparr>"

text \<open>
  \<open>replaceWith\<close> puts the nodes \<open>ns\<close> where the node \<open>t\<close> is. A node of the live
  document always has a parent (at the top, the document); the root of a detached subtree
  has none, and then nothing is replaced. The node taken out, or the content that found no
  place, stays among the detached subtrees. Empty content takes the node out and puts
  nothing in its place.
\<close>

definition replaceWith :: "nat \<Rightarrow> node list \<Rightarrow> page \<Rightarrow> page" where
  "replaceWith t ns p =
     (case chain t (live p) of
        old # _ \<Rightarrow> p\<lparr>live := replace t ns (live p), detached := detached p @ [old]\<rparr>
      | [] \<Rightarrow>
         (case chain t (detached p) of
            old # _ # _ \<Rightarrow> p\<lparr>detached := replace_below t ns (detached p) @ [old]\<rparr>
          | _ \<Rightarrow> p\<lparr>detached := detached p @ ns\<rparr>))"

text \<open>
  \<open>$(data).replaceAll(targets)\<close> when the data is markup: every target is replaced by a
  copy of the content (the last one by the content itself, the others by clones; here each
  copy is numbered afresh), and the result holds the nodes of all the copies. With no
  target it is empty.
\<close>

fun replaceAll_new :: "html list \<Rightarrow> jq \<Rightarrow> page \<Rightarrow> jq \<times> page" where
  "replaceAll_new content [] p = ([], p)"
| "replaceAll_new content (t # ts) p =
     (case parseHTML (next_id p) content of (ns, k) \<Rightarrow>
        (case replaceAll_new content ts (replaceWith t ns (p\<lparr>next_id := k\<rparr>)) of (ret, p') \<Rightarrow>
           (map ident ns @ ret, p')))"

text \<open>
  \<open>$(selector)\<close> is every element of the live document that matches, in document order.
\<close>

fun flatten :: "node list \<Rightarrow> node list" where
  "flatten [] = []"
| "flatten (Elem i t c a ks # rest) = Elem i t c a ks # flatten ks @ flatten rest"

definition select :: "string \<Rightarrow> page \<Rightarrow> jq" where
  "select sel p = map ident (filter (matches sel) (flatten (live p)))"

text \<open>
  When the data is not markup, the content is the elements that it selects, and they are
  moved, as jQuery 3 does it. The elements other than the target are taken from where they
  are, one after the other, into a fragment (\<open>gather\<close>). If the target is among the content
  it is left alone; if it went into the fragment inside one of its ancestors, putting the
  fragment in its place throws; otherwise the fragment replaces it. Every target but the
  last receives clones of the content, which are new nodes.
\<close>

datatype error = TypeError | HierarchyRequestError

fun gather :: "jq \<Rightarrow> node list \<Rightarrow> node list \<Rightarrow> node list \<Rightarrow> node list \<times> node list \<times> node list" where
  "gather [] lv dt fr = (lv, dt, fr)"
| "gather (e # es) lv dt fr =
     (case chain e (lv @ dt @ fr) of
        [] \<Rightarrow> gather es lv dt fr
      | n # _ \<Rightarrow> gather es (replace e [] lv) (replace e [] dt) (replace_below e [] fr @ [n]))"

definition replaceWith_existing :: "nat \<Rightarrow> jq \<Rightarrow> page \<Rightarrow> error option \<times> page" where
  "replaceWith_existing t es p =
     (case gather (filter (\<lambda>e. e \<noteq> t) es) (live p) (detached p) [] of
        (lv, dt, fr) \<Rightarrow>
          if t \<in> set es then (None, p\<lparr>live := lv, detached := dt @ fr\<rparr>)
          else if chain t fr \<noteq> [] then
            (Some HierarchyRequestError, p\<lparr>live := lv, detached := dt @ fr\<rparr>)
          else (None, replaceWith t fr (p\<lparr>live := lv, detached := dt\<rparr>)))"

definition current :: "jq \<Rightarrow> page \<Rightarrow> node list" where
  "current es p = concat (map (\<lambda>e. case node_of e p of None \<Rightarrow> [] | Some n \<Rightarrow> [n]) es)"

fun replaceAll_existing :: "jq \<Rightarrow> jq \<Rightarrow> page \<Rightarrow> error option \<times> jq \<times> page" where
  "replaceAll_existing es [] p = (None, [], p)"
| "replaceAll_existing es [t] p =
     (case replaceWith_existing t es p of (e, p') \<Rightarrow> (e, es, p'))"
| "replaceAll_existing es (t # ts) p =
     (case parseHTML (next_id p) (map outerHTML (current es p)) of (ns, k) \<Rightarrow>
        (case replaceAll_existing es ts (replaceWith t ns (p\<lparr>next_id := k\<rparr>)) of
           (e, ret, p') \<Rightarrow> (e, map ident ns @ ret, p')))"

text \<open>\<open>$(data).replaceAll(targets)\<close>, for both kinds of data.\<close>

fun replaceAll :: "body \<Rightarrow> jq \<Rightarrow> page \<Rightarrow> error option \<times> jq \<times> page" where
  "replaceAll (Markup hs) ts p = (case replaceAll_new hs ts p of (ret, p') \<Rightarrow> (None, ret, p'))"
| "replaceAll (Plain s) ts p = replaceAll_existing (select s p) ts p"

text \<open>
  \<open>attr\<close> reads an attribute of an element; it is undefined, \<open>None\<close>, when the attribute
  is absent.
\<close>

definition attr :: "nat \<Rightarrow> string \<Rightarrow> page \<Rightarrow> string option" where
  "attr x name p = (case node_of x p of None \<Rightarrow> None | Some n \<Rightarrow> lookup (attrs n) name)"

text \<open>
  \<open>$(x).data(key)\<close> answers from jQuery's data cache when the cache holds a value for the
  element and the key; otherwise it reads the attribute \<open>data-key\<close>, and a value found
  there is kept in the cache from then on, whatever becomes of the attribute. The cache is
  jQuery's own and no part of the page. jQuery converts the strings \<open>true\<close>, \<open>false\<close> and
  \<open>null\<close>, numbers and JSON; the model keeps the string, and \<open>truthy\<close> is JavaScript's test
  of the converted value: undefined is false, and so are the empty string and the strings
  that convert to false, null, 0 and NaN.
\<close>

type_synonym cache = "((nat \<times> string) \<times> string) list"

definition jq_data :: "nat \<Rightarrow> string \<Rightarrow> cache \<Rightarrow> page \<Rightarrow> string option \<times> cache" where
  "jq_data x key k p =
     (case map_of k (x, key) of
        Some v \<Rightarrow> (Some v, k)
      | None \<Rightarrow>
         (case attr x (''data-'' @ key) p of
            Some v \<Rightarrow> (Some v, ((x, key), v) # k)
          | None \<Rightarrow> (None, k)))"

definition data_value :: "nat \<Rightarrow> string \<Rightarrow> cache \<Rightarrow> page \<Rightarrow> string option" where
  "data_value x key k p = fst (jq_data x key k p)"

fun truthy :: "string option \<Rightarrow> bool" where
  "truthy None = False"
| "truthy (Some s) = (s \<notin> set [[], ''false'', ''null'', ''0'', ''NaN''])"


text \<open>\<open>a || b\<close> on such a value.\<close>

fun or_else :: "string option \<Rightarrow> string \<Rightarrow> string" where
  "or_else None d = d"
| "or_else (Some s) d = (if truthy (Some s) then s else d)"

text \<open>
  \<open>prop('name')\<close> and \<open>val()\<close> of a button: its \<open>name\<close> and \<open>value\<close> attributes, the
  empty string when absent.
\<close>

definition prop_name :: "nat \<Rightarrow> page \<Rightarrow> string" where
  "prop_name x p = (case attr x ''name'' p of None \<Rightarrow> [] | Some s \<Rightarrow> s)"

definition val :: "nat \<Rightarrow> page \<Rightarrow> string" where
  "val x p = (case attr x ''value'' p of None \<Rightarrow> [] | Some s \<Rightarrow> s)"

text \<open>\<open>appendTo\<close> a jQuery object of at most one element, as \<open>closest\<close> gives it.\<close>

definition appendTo :: "node \<Rightarrow> jq \<Rightarrow> page \<Rightarrow> page" where
  "appendTo new targets p =
     (case targets of
        [] \<Rightarrow> p\<lparr>detached := detached p @ [new]\<rparr>
      | t # _ \<Rightarrow> on_nodes (map (append_child t new)) p)"

text \<open>
  \<open>serialize\<close>: the name/value pairs of the successful controls below the form, in document
  order. A control is successful when it is an input, select, textarea or keygen element
  with a non-empty name, not disabled, not of a submitter type, and checked if it is a
  checkbox or a radio button. The value is the \<open>value\<close> attribute; the pairs stand for the
  URL-encoded string.
\<close>

definition field_name :: "node \<Rightarrow> string" where
  "field_name n = (case lookup (attrs n) ''name'' of None \<Rightarrow> [] | Some s \<Rightarrow> s)"

definition field_value :: "node \<Rightarrow> string" where
  "field_value n = (case lookup (attrs n) ''value'' of None \<Rightarrow> [] | Some s \<Rightarrow> s)"

definition successful :: "node \<Rightarrow> bool" where
  "successful n =
     (tag n \<in> set [''input'', ''select'', ''textarea'', ''keygen'']
      \<and> field_name n \<noteq> []
      \<and> lookup (attrs n) ''disabled'' = None
      \<and> (case lookup (attrs n) ''type'' of
           None \<Rightarrow> True
         | Some ty \<Rightarrow>
             ty \<notin> set [''submit'', ''button'', ''image'', ''reset'', ''file'']
             \<and> (ty \<in> set [''checkbox'', ''radio''] \<longrightarrow> lookup (attrs n) ''checked'' \<noteq> None)))"

definition serialize :: "nat \<Rightarrow> page \<Rightarrow> payload" where
  "serialize x p =
     (case node_of x p of
        None \<Rightarrow> []
      | Some f \<Rightarrow> map (\<lambda>n. (field_name n, field_value n)) (filter successful (flatten (kids f))))"


section \<open>The replace controller\<close>

text \<open>
  The options of \<open>ajaxReplace\<close>. The \<open>success\<close> callback receives the container and the
  response body; it may write to the page, read data values and throw. It returns what it
  threw, the page and the data cache.
\<close>

type_synonym callback = "jq \<Rightarrow> body \<Rightarrow> cache \<Rightarrow> page \<Rightarrow> error option \<times> page \<times> cache"

record options =
  selector :: "string option"
  http_method :: "string option"
  data :: "payload option"
  success :: "callback option"

definition no_options :: options where
  "no_options = \<lparr>selector = None, http_method = None, data = None, success = None\<rparr>"

text \<open>A request in flight: what its three handlers have captured.\<close>

record pending =
  container :: jq
  pending_options :: options

text \<open>
  \<open>$.fn.ajaxReplace\<close>, up to the request being sent. It returns the request in flight, or
  nothing when the guard made it return early.
\<close>

definition ajaxReplace :: "jq \<Rightarrow> string option \<Rightarrow> options option \<Rightarrow> page \<Rightarrow> pending option \<times> page" where
  "ajaxReplace this url opts p =
     (if closest ''.replace-active'' this p \<noteq> [] then (None, p)
      else
        let options = (case opts of None \<Rightarrow> no_options | Some opt \<Rightarrow> opt);
            c = closest (or_else (selector options) ''*'') this p;
            p1 = trigger ''replace:start'' c (addClass ''replace-active'' c p);
            p2 = ajax url (http_method options) (data options) p1
        in (Some \<lparr>container = c, pending_options = options\<rparr>, p2))"

text \<open>The three handlers of the request, and the order jQuery calls them in when it settles.\<close>

definition always_handler :: "pending \<Rightarrow> page \<Rightarrow> page" where
  "always_handler pd p =
     trigger ''replace:always'' (container pd) (removeClass ''replace-active'' (container pd) p)"

definition call_success :: "pending \<Rightarrow> body \<Rightarrow> cache \<Rightarrow> page \<Rightarrow> error option \<times> page \<times> cache" where
  "call_success pd body k p =
     (case success (pending_options pd) of
        Some callback \<Rightarrow> callback (container pd) body k p
      | None \<Rightarrow> (None, p, k))"

definition done_handler :: "pending \<Rightarrow> body \<Rightarrow> cache \<Rightarrow> page \<Rightarrow> error option \<times> page \<times> cache" where
  "done_handler pd body k p =
     (case call_success pd body k p of
        (Some e, p1, k1) \<Rightarrow> (Some e, p1, k1)
      | (None, p1, k1) \<Rightarrow>
          (case replaceAll body (container pd) p1 of
             (Some e, new, p2) \<Rightarrow> (Some e, p2, k1)
           | (None, new, p2) \<Rightarrow> (None, trigger ''replace:done'' new p2, k1)))"

definition fail_handler :: "pending \<Rightarrow> page \<Rightarrow> page" where
  "fail_handler pd p = trigger ''replace:fail'' (container pd) p"

datatype response = Done body | Fail

definition settle :: "pending \<Rightarrow> response \<Rightarrow> cache \<Rightarrow> page \<Rightarrow> error option \<times> page \<times> cache" where
  "settle pd r k p =
     (case r of
        Done body \<Rightarrow> done_handler pd body k (always_handler pd p)
      | Fail \<Rightarrow> (None, fail_handler pd (always_handler pd p), k))"

text \<open>The three parts of such a result: what was thrown, the page, the data cache.\<close>

definition thrown :: "error option \<times> page \<times> cache \<Rightarrow> error option" where
  "thrown r = fst r"

definition page_of :: "error option \<times> page \<times> cache \<Rightarrow> page" where
  "page_of r = fst (snd r)"

definition cache_of :: "error option \<times> page \<times> cache \<Rightarrow> cache" where
  "cache_of r = snd (snd r)"


text \<open>The \<open>popstate\<close> handler.\<close>

definition popstate :: "hstate option \<Rightarrow> page \<Rightarrow> error option \<times> page" where
  "popstate st p =
     (case st of
        None \<Rightarrow> (None, p)
      | Some state \<Rightarrow>
          (case state_selector state of
             None \<Rightarrow> (None, p)
           | Some sel \<Rightarrow>
               if truthy (Some sel) then
                 (case replaceAll (state_data state) (select sel p) p of
                    (Some e, new, p1) \<Rightarrow> (Some e, p1)
                  | (None, new, p1) \<Rightarrow>
                      (None, trigger ''replace:done'' new (trigger ''replace:always'' new p1)))
               else (None, p)))"

text \<open>
  What a delegated handler did with an event: whether it called \<open>preventDefault\<close>, the
  request it started, the page it left and the data cache it left.
\<close>

record handled =
  defaultPrevented :: bool
  started :: "pending option"
  page_after :: page
  cache_after :: cache

record click_event =
  shiftKey :: bool
  metaKey :: bool

definition replaceState :: "hstate \<Rightarrow> page \<Rightarrow> page" where
  "replaceState st p = p\<lparr>history := history p @ [ReplaceState st]\<rparr>"

definition pushState :: "hstate \<Rightarrow> string option \<Rightarrow> page \<Rightarrow> page" where
  "pushState st u p = p\<lparr>history := history p @ [PushState st u]\<rparr>"

text \<open>
  The success callback of a link (lines 83 to 94). It reads \<open>data('pushstate')\<close>, then
  \<open>data('replace')\<close> for the first state object, whose next field, \<open>$container[0].outerHTML\<close>,
  throws a TypeError when the container is empty, \<open>$container[0]\<close> being undefined; then
  \<open>data('replace')\<close> again and the \<open>href\<close> attribute for \<open>pushState\<close>. (A node a jQuery
  object holds is always a node of the page, so the second TypeError branch is never
  taken.)
\<close>

definition link_success :: "nat \<Rightarrow> callback" where
  "link_success link c body k p =
     (case jq_data link ''pushstate'' k p of (pushstate, k1) \<Rightarrow>
        if truthy pushstate then
          (case jq_data link ''replace'' k1 p of (sel1, k2) \<Rightarrow>
             (case c of
                [] \<Rightarrow> (Some TypeError, p, k2)
              | c0 # _ \<Rightarrow>
                 (case node_of c0 p of
                    None \<Rightarrow> (Some TypeError, p, k2)
                  | Some n \<Rightarrow>
                     (case jq_data link ''replace'' k2 p of (sel2, k3) \<Rightarrow>
                        (None,
                         pushState \<lparr>state_selector = sel2, state_data = body\<rparr>
                           (attr link ''href'' p)
                           (replaceState \<lparr>state_selector = sel1,
                                          state_data = Markup [outerHTML n]\<rparr> p),
                         k3)))))
        else (None, p, k1))"

text \<open>
  The click handler of \<open>a[data-replace]\<close>; \<open>link\<close> is the element it runs on. It reads
  \<open>data('pushstate')\<close> on line 67 and \<open>data('replace')\<close> on line 82.
\<close>

definition link_click :: "nat \<Rightarrow> click_event \<Rightarrow> cache \<Rightarrow> page \<Rightarrow> handled" where
  "link_click link event k p =
     (case jq_data link ''pushstate'' k p of (pushstate, k1) \<Rightarrow>
        if truthy pushstate \<and> \<not> pushState_supported p then
          \<lparr>defaultPrevented = False, started = None, page_after = p, cache_after = k1\<rparr>
        else if truthy pushstate \<and> (shiftKey event \<or> metaKey event) then
          \<lparr>defaultPrevented = False, started = None, page_after = p, cache_after = k1\<rparr>
        else
          (case jq_data link ''replace'' k1 p of (sel, k2) \<Rightarrow>
             (case ajaxReplace [link] (attr link ''href'' p)
                     (Some \<lparr>selector = sel, http_method = None, data = None,
                            success = Some (link_success link)\<rparr>) p of
                (pd, p') \<Rightarrow>
                  \<lparr>defaultPrevented = True, started = pd, page_after = p',
                   cache_after = k2\<rparr>)))"

text \<open>The submit handler of \<open>form[data-replace]\<close>; it reads \<open>data('replace')\<close> on line 103.\<close>

definition form_submit :: "nat \<Rightarrow> cache \<Rightarrow> page \<Rightarrow> handled" where
  "form_submit form k p =
     (case jq_data form ''replace'' k p of (sel, k1) \<Rightarrow>
        (case ajaxReplace [form] (attr form ''action'' p)
                (Some \<lparr>selector = sel, http_method = attr form ''method'' p,
                       data = Some (serialize form p), success = None\<rparr>) p of
           (pd, p') \<Rightarrow>
             \<lparr>defaultPrevented = True, started = pd, page_after = p', cache_after = k1\<rparr>))"

text \<open>
  The click handler of \<open>form[data-replace] button\<close>: a new hidden input with the name and
  the value of the button, appended to the closest form. It calls neither
  \<open>preventDefault\<close> nor \<open>ajaxReplace\<close>.
\<close>

definition hidden_input :: "nat \<Rightarrow> string \<Rightarrow> string \<Rightarrow> node" where
  "hidden_input k name v =
     Elem k ''input'' [] [(''type'', ''hidden''), (''name'', name), (''value'', v)] []"

definition button_click :: "nat \<Rightarrow> page \<Rightarrow> page" where
  "button_click button p =
     appendTo (hidden_input (next_id p) (prop_name button p) (val button p))
       (closest ''form'' [button] p)
       (p\<lparr>next_id := Suc (next_id p)\<rparr>)"


text \<open>
  An element is inside a container with a replace operation in progress when it or one of
  its ancestors carries the class \<open>replace-active\<close>.
\<close>

definition marked :: "nat \<Rightarrow> page \<Rightarrow> bool" where
  "marked x p =
     (\<exists>n \<in> set (chain x (live p @ detached p)). ''replace-active'' \<in> set (classes n))"



text \<open>
  The classes of every node of a forest, by identity, and the test that a node of the page
  carries a class.
\<close>

fun class_table :: "node list \<Rightarrow> (nat \<times> string list) list" where
  "class_table [] = []"
| "class_table (Elem i t c a ks # rest) = (i, c) # class_table ks @ class_table rest"

definition table :: "page \<Rightarrow> (nat \<times> string list) list" where
  "table p = class_table (live p @ detached p)"

definition has_class :: "nat \<Rightarrow> string \<Rightarrow> page \<Rightarrow> bool" where
  "has_class x c p = (\<exists>(i, cs) \<in> set (table p). i = x \<and> c \<in> set cs)"

text \<open>The children of the form \<open>f\<close>, the elements among which its controls are found.\<close>

definition form_kids :: "nat \<Rightarrow> page \<Rightarrow> node list" where
  "form_kids f p = (case node_of f p of None \<Rightarrow> [] | Some n \<Rightarrow> kids n)"

text \<open>Node numbers are handed out in increasing order: every node is below \<open>next_id\<close>.\<close>

definition numbered :: "page \<Rightarrow> bool" where
  "numbered p = (\<forall>i \<in> set (ids (live p @ detached p)). i < next_id p)"


section \<open>Example pages\<close>

text \<open>
  A container holding a link and a form that both replace it; in \<open>busy_page\<close> a replace
  operation on the container is in progress.
\<close>

definition container_kids :: "node list" where
  "container_kids =
     [Elem 1 ''a'' [] [(''href'', ''/foo''), (''data-replace'', ''.container'')] [],
      Elem 2 ''form'' [] [(''action'', ''/bar''), (''method'', ''POST''),
                          (''data-replace'', ''.container'')]
        [Elem 3 ''input'' [] [(''name'', ''q''), (''value'', ''tea'')] [],
         Elem 4 ''button'' [] [(''name'', ''go''), (''value'', ''yes'')] [],
         Elem 5 ''button'' [] [(''value'', ''anonymous'')] []]]"

definition idle_page :: page where
  "idle_page =
     \<lparr>live = [Elem 0 ''div'' [''container''] [] container_kids],
      detached = [], next_id = 6, events = [], requests = [], history = [],
      pushState_supported = True\<rparr>"

definition busy_page :: page where
  "busy_page =
     \<lparr>live = [Elem 0 ''div'' [''container'', ''replace-active''] [] container_kids],
      detached = [], next_id = 6, events = [(''replace:start'', 0)],
      requests = [\<lparr>req_url = Some ''/foo'', req_type = None, req_data = None\<rparr>],
      history = [], pushState_supported = True\<rparr>"




text \<open>
  A link that asks for history integration and whose selector matches none of its
  ancestors, and the request that a click on it starts.
\<close>

definition stray_page :: page where
  "stray_page =
     \<lparr>live = [Elem 0 ''div'' [''container''] []
                [Elem 1 ''a'' [] [(''href'', ''/foo''), (''data-replace'', ''.missing''),
                                  (''data-pushstate'', ''true'')] []]],
      detached = [], next_id = 2, events = [], requests = [], history = [],
      pushState_supported = True\<rparr>"

definition stray_request :: pending where
  "stray_request =
     \<lparr>container = [],
      pending_options = \<lparr>selector = Some ''.missing'', http_method = None, data = None,
                         success = Some (link_success 1)\<rparr>\<rparr>"

text \<open>
  The link of the README, \<open><a href="/foo" data-replace data-pushstate>\<close>: both attributes
  are written without a value, and the link replaces itself.
\<close>

definition readme_link :: node where
  "readme_link =
     Elem 1 ''a'' [] [(''href'', ''/foo''), (''data-replace'', []), (''data-pushstate'', [])] []"

definition readme_page :: page where
  "readme_page =
     \<lparr>live = [Elem 0 ''div'' [''container''] [] [readme_link]],
      detached = [], next_id = 2, events = [], requests = [], history = [],
      pushState_supported = True\<rparr>"

definition readme_request :: pending where
  "readme_request =
     \<lparr>container = [1],
      pending_options = \<lparr>selector = Some [], http_method = None, data = None,
                         success = Some (link_success 1)\<rparr>\<rparr>"

definition shift_click :: click_event where
  "shift_click = \<lparr>shiftKey = True, metaKey = False\<rparr>"

text \<open>The request that a click on the link of \<open>idle_page\<close> starts.\<close>

definition link_request :: pending where
  "link_request =
     \<lparr>container = [0],
      pending_options = \<lparr>selector = Some ''.container'', http_method = None, data = None,
                         success = Some (link_success 1)\<rparr>\<rparr>"

text \<open>A response body: a new container.\<close>

definition new_container :: "html list" where
  "new_container = [Elem () ''div'' [''container''] [] [Elem () ''b'' [] [] []]]"

definition plain_click :: click_event where
  "plain_click = \<lparr>shiftKey = False, metaKey = False\<rparr>"


section \<open>The double-submission guard\<close>

lemma matches_marker:
  "matches ''.replace-active'' n = (''replace-active'' \<in> set (classes n))"
  by (simp add: matches_def)

lemma closest_single:
  "closest sel [x] p \<noteq> [] \<longleftrightarrow> (\<exists>n \<in> set (chain x (live p @ detached p)). matches sel n)"
proof (cases "find (matches sel) (chain x (live p @ detached p))")
  case None
  then have "\<not> (\<exists>n \<in> set (chain x (live p @ detached p)). matches sel n)"
    by (simp add: find_None_iff)
  with None show ?thesis by (simp add: closest_def)
next
  case (Some n)
  then have "n \<in> set (chain x (live p @ detached p)) \<and> matches sel n"
    by (auto simp: find_Some_iff)
  with Some show ?thesis by (auto simp: closest_def)
qed

lemma closest_marker: "closest ''.replace-active'' [x] p \<noteq> [] \<longleftrightarrow> marked x p"
  by (simp add: closest_single marked_def matches_marker)

lemma ajaxReplace_guarded: "marked x p \<Longrightarrow> ajaxReplace [x] u opts p = (None, p)"
  using closest_marker [of x p] by (simp add: ajaxReplace_def)

text \<open>
  C1, as the claim states it, fails: the click handler calls \<open>preventDefault\<close> on line 79
  and the submit handler on line 99, before \<open>ajaxReplace\<close> reaches its guard. On a click
  of the link inside the busy container the default is prevented.
\<close>

theorem guarded_click_prevents_default:
  "marked 1 busy_page \<and> defaultPrevented (link_click 1 plain_click [] busy_page)"
  by (simp add: marked_def busy_page_def container_kids_def plain_click_def link_click_def
      ajaxReplace_def closest_def matches_def jq_data_def attr_def node_of_def)

text \<open>
  C1, amended: when the link or the form, or one of its ancestors, carries the in-progress
  marker, the handler starts no request and leaves the whole page as it is (markers,
  notifications, requests and history), whatever the data cache holds. The submit handler
  has always called \<open>preventDefault\<close>; the click handler has called it unless the
  push-state gate returned first.
\<close>

theorem guard_ignores_event:
  assumes "marked link p" and "marked form p"
  shows "started (link_click link ev k p) = None \<and> page_after (link_click link ev k p) = p
       \<and> (defaultPrevented (link_click link ev k p) \<longleftrightarrow>
            \<not> (truthy (data_value link ''pushstate'' k p)
               \<and> (\<not> pushState_supported p \<or> shiftKey ev \<or> metaKey ev)))
       \<and> started (form_submit form k p) = None \<and> page_after (form_submit form k p) = p
       \<and> defaultPrevented (form_submit form k p)"
  using ajaxReplace_guarded [OF assms(1)] ajaxReplace_guarded [OF assms(2)]
  by (auto simp: link_click_def form_submit_def data_value_def split: prod.splits)

theorem guard_ignores_event_witness:
  "marked 1 busy_page \<and> marked 2 busy_page
   \<and> started (link_click 1 plain_click [] busy_page) = None
   \<and> page_after (link_click 1 plain_click [] busy_page) = busy_page
   \<and> defaultPrevented (link_click 1 plain_click [] busy_page)
   \<and> started (form_submit 2 [] busy_page) = None
   \<and> page_after (form_submit 2 [] busy_page) = busy_page
   \<and> defaultPrevented (form_submit 2 [] busy_page)"
proof -
  have l: "marked 1 busy_page" and f: "marked 2 busy_page"
    by (simp_all add: marked_def busy_page_def container_kids_def)
  have t: "\<not> truthy (data_value 1 ''pushstate'' [] busy_page)"
    by (simp add: data_value_def jq_data_def attr_def node_of_def busy_page_def
        container_kids_def)
  show ?thesis using l f t guard_ignores_event [OF l f, of plain_click "[]"] by simp
qed


section \<open>Results\<close>

lemma thrown_simp [simp]: "thrown (e, p, k) = e"
  by (simp add: thrown_def)

lemma page_of_simp [simp]: "page_of (e, p, k) = p"
  by (simp add: page_of_def)

lemma cache_of_simp [simp]: "cache_of (e, p, k) = k"
  by (simp add: cache_of_def)

lemma result_eq: "r = (thrown r, page_of r, cache_of r)"
  by (simp add: thrown_def page_of_def cache_of_def)


section \<open>Parsing a fragment\<close>

lemma parseHTML_ids: "parseHTML k hs = (ns, k') \<Longrightarrow> k \<le> k' \<and> ids ns = [k..<k']"
proof (induction k hs arbitrary: ns k' rule: parseHTML.induct)
  case (1 k)
  then show ?case by simp
next
  case (2 k u t c a ks rest)
  obtain ks' k1 where a: "parseHTML (Suc k) ks = (ks', k1)" by (cases "parseHTML (Suc k) ks")
  obtain rest' k2 where b: "parseHTML k1 rest = (rest', k2)" by (cases "parseHTML k1 rest")
  from "2.IH"(1) [OF a] have ia: "Suc k \<le> k1" "ids ks' = [Suc k..<k1]" by simp_all
  from "2.IH"(2) [OF a [symmetric] b] have ib: "k1 \<le> k2" "ids rest' = [k1..<k2]" by simp_all
  from "2.prems" a b have r: "ns = Elem k t c a ks' # rest'" "k' = k2" by simp_all
  have "[Suc k..<k2] = [Suc k..<k1] @ [k1..<k2]"
    using ia(1) ib(1) upt_add_eq_append [of "Suc k" k1 "k2 - k1"] by simp
  moreover have "k < k2" using ia(1) ib(1) by simp
  ultimately have "[k..<k2] = k # [Suc k..<k1] @ [k1..<k2]"
    by (simp add: upt_conv_Cons)
  with r ia ib show ?case by simp
qed




section \<open>The classes of the nodes\<close>

lemma class_table_append: "class_table (A @ B) = class_table A @ class_table B"
  by (induction A rule: class_table.induct) simp_all

lemma ids_class_table: "ids F = map fst (class_table F)"
  by (induction F rule: class_table.induct) simp_all

lemma class_table_change:
  "class_table (map (change_classes x g) F) =
     map (\<lambda>(i, c). (i, if i = x then g c else c)) (class_table F)"
  by (induction F rule: class_table.induct) simp_all

lemma class_table_replace:
  "set (class_table (replace x ns F)) \<subseteq> set (class_table F) \<union> set (class_table ns)"
  by (induction x ns F rule: replace.induct) (auto simp: class_table_append)

lemma class_table_chain:
  "n \<in> set (chain x F) \<Longrightarrow> set (class_table [n]) \<subseteq> set (class_table F)"
  by (induction x F rule: chain.induct) (auto simp: class_table_append split: if_splits list.splits)

lemma chain_ident: "n \<in> set (chain x F) \<Longrightarrow> ident n \<in> set (ids F)"
  by (induction x F rule: chain.induct) (auto split: if_splits list.splits)

lemma table_on_nodes:
  "table (on_nodes (map (change_classes x g)) p) =
     map (\<lambda>(i, c). (i, if i = x then g c else c)) (table p)"
  by (simp add: table_def on_nodes_def class_table_append class_table_change)

lemma remove_class_idem: "remove_class m (remove_class m cs) = remove_class m cs"
  by (simp add: remove_class_def)

lemma add_class_idem: "add_class m (add_class m cs) = add_class m cs"
  by (simp add: add_class_def)

lemma table_fold:
  assumes "\<And>cs. g (g cs) = g cs"
  shows "table (fold (\<lambda>x. on_nodes (map (change_classes x g))) xs p) =
     map (\<lambda>(i, c). (i, if i \<in> set xs then g c else c)) (table p)"
proof (induction xs arbitrary: p)
  case Nil
  then show ?case by simp
next
  case (Cons x xs)
  show ?case
    by (simp add: Cons.IH table_on_nodes assms case_prod_unfold cong: map_cong)
qed

lemma table_removeClass:
  "table (removeClass m xs p) =
     map (\<lambda>(i, c). (i, if i \<in> set xs then remove_class m c else c)) (table p)"
  unfolding removeClass_def by (rule table_fold) (rule remove_class_idem)

lemma table_addClass:
  "table (addClass m xs p) =
     map (\<lambda>(i, c). (i, if i \<in> set xs then add_class m c else c)) (table p)"
  unfolding addClass_def by (rule table_fold) (rule add_class_idem)

lemma has_class_table: "has_class x c p = (\<exists>(i, cs) \<in> set (table p). i = x \<and> c \<in> set cs)"
  by (simp add: has_class_def)

lemma removeClass_clears: "x \<in> set xs \<Longrightarrow> \<not> has_class x m (removeClass m xs p)"
  by (auto simp: has_class_table table_removeClass remove_class_def)

lemma live_fold:
  "live (fold (\<lambda>x. on_nodes (map (change_classes x g))) xs p) =
     fold (\<lambda>x. map (change_classes x g)) xs (live p)"
  by (induction xs arbitrary: p) (simp_all add: on_nodes_def)

lemma other_fold:
  "next_id (fold (\<lambda>x. on_nodes (map (change_classes x g))) xs p) = next_id p
   \<and> events (fold (\<lambda>x. on_nodes (map (change_classes x g))) xs p) = events p
   \<and> requests (fold (\<lambda>x. on_nodes (map (change_classes x g))) xs p) = requests p
   \<and> history (fold (\<lambda>x. on_nodes (map (change_classes x g))) xs p) = history p
   \<and> pushState_supported (fold (\<lambda>x. on_nodes (map (change_classes x g))) xs p) = pushState_supported p"
  by (induction xs arbitrary: p) (simp_all add: on_nodes_def)

lemma table_trigger [simp]: "table (trigger name xs p) = table p"
  by (simp add: table_def trigger_def)

lemma ids_change: "ids (map (change_classes x g) F) = ids F"
  by (simp add: ids_class_table class_table_change case_prod_unfold cong: map_cong)

lemma ids_fold: "ids (fold (\<lambda>x. map (change_classes x g)) xs F) = ids F"
  by (induction xs arbitrary: F) (simp_all add: ids_change)


section \<open>A failed request\<close>

text \<open>
  C6: when the request fails, the marker is removed from the container and from nothing
  else, \<open>replace:always\<close> and then \<open>replace:fail\<close> are triggered on the container, and
  that is all: no request is issued again, no history is written, no node is created, and
  the live document keeps its nodes, with the classes of the container as the only change.
\<close>

theorem failure_clears_marker_and_notifies:
  "thrown (settle pd Fail k q) = None
   \<and> requests (page_of (settle pd Fail k q)) = requests q
   \<and> history (page_of (settle pd Fail k q)) = history q
   \<and> next_id (page_of (settle pd Fail k q)) = next_id q
   \<and> events (page_of (settle pd Fail k q)) =
        events q @ map (Pair ''replace:always'') (container pd)
                 @ map (Pair ''replace:fail'') (container pd)
   \<and> live (page_of (settle pd Fail k q)) =
        fold (\<lambda>x. map (change_classes x (remove_class ''replace-active''))) (container pd) (live q)
   \<and> ids (live (page_of (settle pd Fail k q))) = ids (live q)
   \<and> (\<forall>c \<in> set (container pd). \<not> has_class c ''replace-active'' (page_of (settle pd Fail k q)))
   \<and> cache_of (settle pd Fail k q) = k"
proof -
  let ?r = "removeClass ''replace-active'' (container pd) q"
  have s: "settle pd Fail k q =
      (None, trigger ''replace:fail'' (container pd) (trigger ''replace:always'' (container pd) ?r), k)"
    by (simp add: settle_def fail_handler_def always_handler_def)
  have o: "requests ?r = requests q" "history ?r = history q" "next_id ?r = next_id q"
    "events ?r = events q"
    by (simp_all add: removeClass_def other_fold)
  have l: "live ?r = fold (\<lambda>x. map (change_classes x (remove_class ''replace-active''))) (container pd) (live q)"
    by (simp add: removeClass_def live_fold)
  have c: "\<forall>c \<in> set (container pd). \<not> has_class c ''replace-active'' (page_of (settle pd Fail k q))"
    using removeClass_clears [of _ "container pd" "''replace-active''" q]
    by (simp add: s has_class_table)
  show ?thesis
    using c by (simp add: s o l ids_fold trigger_def)
qed

theorem failure_clears_marker_and_notifies_witness:
  "0 \<in> set (container link_request)
   \<and> \<not> has_class 0 ''replace-active'' (page_of (settle link_request Fail [] busy_page))
   \<and> events (page_of (settle link_request Fail [] busy_page)) =
        [(''replace:start'', 0), (''replace:always'', 0), (''replace:fail'', 0)]
   \<and> requests (page_of (settle link_request Fail [] busy_page)) = requests busy_page"
proof -
  have c: "0 \<in> set (container link_request)" by (simp add: link_request_def)
  have e: "events busy_page = [(''replace:start'', 0)]" by (simp add: busy_page_def)
  show ?thesis
    using c e failure_clears_marker_and_notifies [of link_request "[]" busy_page]
    by (simp add: link_request_def)
qed


section \<open>The marker over the life of a request\<close>

lemma table_ajax [simp]: "table (ajax u t d p) = table p"
  by (simp add: table_def ajax_def)

lemma table_replaceState [simp]: "table (replaceState st p) = table p"
  by (simp add: table_def replaceState_def)

lemma table_pushState [simp]: "table (pushState st u p) = table p"
  by (simp add: table_def pushState_def)

lemma closest_in_page:
  assumes "c \<in> set (closest sel [x] p)"
  shows "c \<in> fst ` set (table p)"
proof -
  from assms obtain n where f: "find (matches sel) (chain x (live p @ detached p)) = Some n" and c: "c = ident n"
    by (cases "find (matches sel) (chain x (live p @ detached p))") (auto simp: closest_def)
  from f have "n \<in> set (chain x (live p @ detached p))"
    by (auto simp: find_Some_iff)
  then have "ident n \<in> set (ids (live p @ detached p))" by (rule chain_ident)
  with c show ?thesis by (simp add: ids_class_table table_def)
qed

lemma addClass_marks:
  assumes "c \<in> set cs" and "c \<in> fst ` set (table p)"
  shows "has_class c m (addClass m cs p)"
proof -
  from assms(2) obtain k where k: "(c, k) \<in> set (table p)" by auto
  then have "(c, add_class m k) \<in> set (table (addClass m cs p))"
    using assms(1) by (force simp: table_addClass)
  moreover have "m \<in> set (add_class m k)" by (simp add: add_class_def)
  ultimately show ?thesis by (auto simp: has_class_table)
qed

lemma change_classes_noop:
  "\<forall>(i, cs) \<in> set (class_table F). i = c \<longrightarrow> m \<notin> set cs \<Longrightarrow>
   map (change_classes c (remove_class m)) F = F"
proof (induction F rule: class_table.induct)
  case 1
  then show ?case by simp
next
  case (2 i t cl a ks rest)
  then show ?case by (auto simp: remove_class_def filter_id_conv)
qed

lemma removeClass_noop: "\<not> has_class c m q \<Longrightarrow> removeClass m [c] q = q"
proof -
  assume a: "\<not> has_class c m q"
  then have "\<forall>(i, cs) \<in> set (class_table (live q)). i = c \<longrightarrow> m \<notin> set cs"
    and "\<forall>(i, cs) \<in> set (class_table (detached q)). i = c \<longrightarrow> m \<notin> set cs"
    by (auto simp: has_class_table table_def class_table_append)
  then show ?thesis
    by (simp add: removeClass_def on_nodes_def change_classes_noop)
qed

lemma class_table_replace_below:
  "set (class_table (replace_below x ns F)) \<subseteq> set (class_table F) \<union> set (class_table ns)"
proof (induction F)
  case Nil
  then show ?case by (simp add: replace_below_def)
next
  case (Cons n F)
  obtain i t c a ks where n: "n = Elem i t c a ks" by (cases n)
  have "replace_below x ns (n # F) = Elem i t c a (replace x ns ks) # replace_below x ns F"
    by (simp add: replace_below_def n)
  then show ?case
    using Cons.IH class_table_replace [of x ns ks]
    by (auto simp: n class_table_append)
qed

lemma table_replaceWith:
  "set (table (replaceWith t ns p)) \<subseteq> set (table p) \<union> set (class_table ns)"
proof (cases "chain t (live p)")
  case (Cons old anc)
  then have "old \<in> set (chain t (live p))" by simp
  from class_table_chain [OF this] have "set (class_table [old]) \<subseteq> set (class_table (live p))" .
  with Cons show ?thesis
    using class_table_replace [of t ns "live p"]
    by (auto simp: replaceWith_def table_def class_table_append)
next
  case Nil
  show ?thesis
  proof (cases "chain t (detached p)")
    case n: Nil
    with Nil show ?thesis
      by (auto simp: replaceWith_def table_def class_table_append)
  next
    case (Cons old anc)
    then have "old \<in> set (chain t (detached p))" by simp
    from class_table_chain [OF this] have o: "set (class_table [old]) \<subseteq> set (class_table (detached p))" .
    show ?thesis
    proof (cases anc)
      case n: Nil
      with Nil Cons show ?thesis
        by (auto simp: replaceWith_def table_def class_table_append)
    next
      case c: (Cons a anc')
      with Nil Cons o show ?thesis
        using class_table_replace_below [of t ns "detached p"]
        by (auto simp: replaceWith_def table_def class_table_append)
    qed
  qed
qed


lemma replaceWith_other:
  "next_id (replaceWith t ns p) = next_id p \<and> events (replaceWith t ns p) = events p
   \<and> requests (replaceWith t ns p) = requests p \<and> history (replaceWith t ns p) = history p
   \<and> pushState_supported (replaceWith t ns p) = pushState_supported p"
  by (simp add: replaceWith_def split: list.splits)

lemma class_table_fresh:
  assumes "parseHTML k hs = (ns, k')"
  shows "set (class_table ns) \<subseteq> {(i, cs). k \<le> i}"
proof -
  from parseHTML_ids [OF assms] have "set (ids ns) \<subseteq> {i. k \<le> i}" by auto
  then show ?thesis by (auto simp: ids_class_table)
qed

lemma replaceAll_new_other:
  "replaceAll_new content ts p = (ret, p') \<Longrightarrow>
   next_id p \<le> next_id p' \<and> events p' = events p \<and> requests p' = requests p
   \<and> history p' = history p \<and> pushState_supported p' = pushState_supported p"
proof (induction ts arbitrary: p ret p')
  case Nil
  then show ?case by simp
next
  case (Cons t ts)
  obtain ns k where a: "parseHTML (next_id p) content = (ns, k)"
    by (cases "parseHTML (next_id p) content")
  obtain ret1 p1 where b: "replaceAll_new content ts (replaceWith t ns (p\<lparr>next_id := k\<rparr>)) = (ret1, p1)"
    by (cases "replaceAll_new content ts (replaceWith t ns (p\<lparr>next_id := k\<rparr>))")
  from Cons.prems a b have r: "p' = p1" by simp
  from parseHTML_ids [OF a] have "next_id p \<le> k" by simp
  with Cons.IH [OF b] r show ?case by (simp add: replaceWith_other)
qed

lemma table_replaceAll_new:
  "replaceAll_new content ts p = (ret, p') \<Longrightarrow>
   set (table p') \<subseteq> set (table p) \<union> {(i, cs). next_id p \<le> i}"
proof (induction ts arbitrary: p ret p')
  case Nil
  then show ?case by auto
next
  case (Cons t ts)
  obtain ns k where a: "parseHTML (next_id p) content = (ns, k)"
    by (cases "parseHTML (next_id p) content")
  let ?q = "replaceWith t ns (p\<lparr>next_id := k\<rparr>)"
  obtain ret1 p1 where b: "replaceAll_new content ts ?q = (ret1, p1)"
    by (cases "replaceAll_new content ts ?q")
  from Cons.prems a b have r: "p' = p1" by simp
  from parseHTML_ids [OF a] have k: "next_id p \<le> k" by simp
  have q: "set (table ?q) \<subseteq> set (table p) \<union> {(i, cs). next_id p \<le> i}"
    using table_replaceWith [of t ns "p\<lparr>next_id := k\<rparr>"] class_table_fresh [OF a]
    by (auto simp: table_def)
  have "next_id ?q = k" by (simp add: replaceWith_other)
  with Cons.IH [OF b] k have "set (table p1) \<subseteq> set (table ?q) \<union> {(i, cs). next_id p \<le> i}"
    by auto
  with q r show ?case by auto
qed


lemma gather_table:
  "gather es lv dt fr = (lv', dt', fr') \<Longrightarrow>
   set (class_table (lv' @ dt' @ fr')) \<subseteq> set (class_table (lv @ dt @ fr))"
proof (induction es lv dt fr rule: gather.induct)
  case (1 lv dt fr)
  then show ?case by simp
next
  case (2 e es lv dt fr)
  show ?case
  proof (cases "chain e (lv @ dt @ fr)")
    case Nil
    with 2 show ?thesis by simp
  next
    case (Cons n anc)
    then have "n \<in> set (chain e (lv @ dt @ fr))" by simp
    from class_table_chain [OF this]
    have n: "set (class_table [n]) \<subseteq> set (class_table (lv @ dt @ fr))" .
    from Cons "2.prems"
    have "gather es (replace e [] lv) (replace e [] dt) (replace_below e [] fr @ [n]) = (lv', dt', fr')"
      by simp
    from "2.IH"(2) [OF Cons this]
    have "set (class_table (lv' @ dt' @ fr'))
        \<subseteq> set (class_table (replace e [] lv @ replace e [] dt @ replace_below e [] fr @ [n]))" .
    moreover have "set (class_table (replace e [] lv @ replace e [] dt @ replace_below e [] fr @ [n]))
        \<subseteq> set (class_table (lv @ dt @ fr))"
      using class_table_replace [of e "[]" lv] class_table_replace [of e "[]" dt]
        class_table_replace_below [of e "[]" fr] n
      by (auto simp: class_table_append)
    ultimately show ?thesis by blast
  qed
qed

lemma replaceWith_existing_other:
  "replaceWith_existing t es p = (e, p') \<Longrightarrow>
   next_id p' = next_id p \<and> events p' = events p \<and> requests p' = requests p
   \<and> history p' = history p \<and> pushState_supported p' = pushState_supported p"
  by (auto simp: replaceWith_existing_def replaceWith_other split: prod.splits if_splits)

lemma table_replaceWith_existing:
  assumes "replaceWith_existing t es p = (e, p')"
  shows "set (table p') \<subseteq> set (table p)"
proof -
  obtain lv dt fr where g: "gather (filter (\<lambda>e. e \<noteq> t) es) (live p) (detached p) [] = (lv, dt, fr)"
    by (cases "gather (filter (\<lambda>e. e \<noteq> t) es) (live p) (detached p) []") auto
  from gather_table [OF g]
  have s: "set (class_table (lv @ dt @ fr)) \<subseteq> set (table p)" by (simp add: table_def)
  have "set (table (replaceWith t fr (p\<lparr>live := lv, detached := dt\<rparr>)))
      \<subseteq> set (class_table (lv @ dt @ fr))"
    using table_replaceWith [of t fr "p\<lparr>live := lv, detached := dt\<rparr>"]
    by (auto simp: table_def class_table_append)
  moreover have "table (p\<lparr>live := lv, detached := dt @ fr\<rparr>) = class_table (lv @ dt @ fr)"
    by (simp add: table_def)
  ultimately show ?thesis
    using assms g s by (auto simp: replaceWith_existing_def split: if_splits)
qed

lemma replaceAll_existing_other:
  "replaceAll_existing es ts p = (e, ret, p') \<Longrightarrow>
   next_id p \<le> next_id p' \<and> events p' = events p \<and> requests p' = requests p
   \<and> history p' = history p \<and> pushState_supported p' = pushState_supported p"
proof (induction es ts p arbitrary: e ret p' rule: replaceAll_existing.induct)
  case (1 es p)
  then show ?case by simp
next
  case (2 es t p)
  then show ?case
    using replaceWith_existing_other [of t es p]
    by (cases "replaceWith_existing t es p") auto
next
  case (3 es t v va p)
  obtain ns k where a: "parseHTML (next_id p) (map outerHTML (current es p)) = (ns, k)"
    by (cases "parseHTML (next_id p) (map outerHTML (current es p))")
  let ?q = "replaceWith t ns (p\<lparr>next_id := k\<rparr>)"
  obtain e1 ret1 p1 where b: "replaceAll_existing es (v # va) ?q = (e1, ret1, p1)"
    by (cases "replaceAll_existing es (v # va) ?q") auto
  from "3.prems" a b have r: "p' = p1" by simp
  from parseHTML_ids [OF a] have "next_id p \<le> k" by simp
  with "3.IH" [OF a [symmetric] b] r show ?case by (simp add: replaceWith_other)
qed

lemma table_replaceAll_existing:
  "replaceAll_existing es ts p = (e, ret, p') \<Longrightarrow>
   set (table p') \<subseteq> set (table p) \<union> {(i, cs). next_id p \<le> i}"
proof (induction es ts p arbitrary: e ret p' rule: replaceAll_existing.induct)
  case (1 es p)
  then show ?case by auto
next
  case (2 es t p)
  then show ?case
    using table_replaceWith_existing [of t es p]
    by (cases "replaceWith_existing t es p") auto
next
  case (3 es t v va p)
  obtain ns k where a: "parseHTML (next_id p) (map outerHTML (current es p)) = (ns, k)"
    by (cases "parseHTML (next_id p) (map outerHTML (current es p))")
  let ?q = "replaceWith t ns (p\<lparr>next_id := k\<rparr>)"
  obtain e1 ret1 p1 where b: "replaceAll_existing es (v # va) ?q = (e1, ret1, p1)"
    by (cases "replaceAll_existing es (v # va) ?q") auto
  from "3.prems" a b have r: "p' = p1" by simp
  from parseHTML_ids [OF a] have k: "next_id p \<le> k" by simp
  have q: "set (table ?q) \<subseteq> set (table p) \<union> {(i, cs). next_id p \<le> i}"
    using table_replaceWith [of t ns "p\<lparr>next_id := k\<rparr>"] class_table_fresh [OF a]
    by (auto simp: table_def)
  have "next_id ?q = k" by (simp add: replaceWith_other)
  with "3.IH" [OF a [symmetric] b] k
  have "set (table p1) \<subseteq> set (table ?q) \<union> {(i, cs). next_id p \<le> i}" by auto
  with q r show ?case by auto
qed

lemma replaceAll_other:
  "replaceAll body ts p = (e, ret, p') \<Longrightarrow>
   next_id p \<le> next_id p' \<and> events p' = events p \<and> requests p' = requests p
   \<and> history p' = history p \<and> pushState_supported p' = pushState_supported p"
proof (cases body)
  case (Markup hs)
  assume a: "replaceAll body ts p = (e, ret, p')"
  obtain ret1 p1 where r: "replaceAll_new hs ts p = (ret1, p1)" by (cases "replaceAll_new hs ts p")
  with a Markup have "p' = p1" by simp
  with replaceAll_new_other [OF r] show ?thesis by simp
next
  case (Plain s)
  assume "replaceAll body ts p = (e, ret, p')"
  with Plain show ?thesis using replaceAll_existing_other [of "select s p" ts p e ret p'] by simp
qed

lemma table_replaceAll:
  "replaceAll body ts p = (e, ret, p') \<Longrightarrow>
   set (table p') \<subseteq> set (table p) \<union> {(i, cs). next_id p \<le> i}"
proof (cases body)
  case (Markup hs)
  assume a: "replaceAll body ts p = (e, ret, p')"
  obtain ret1 p1 where r: "replaceAll_new hs ts p = (ret1, p1)" by (cases "replaceAll_new hs ts p")
  with a Markup have "p' = p1" by simp
  with table_replaceAll_new [OF r] show ?thesis by simp
next
  case (Plain s)
  assume "replaceAll body ts p = (e, ret, p')"
  with Plain show ?thesis using table_replaceAll_existing [of "select s p" ts p e ret p'] by simp
qed

lemma link_success_nodes:
  "table (page_of (link_success l c b k p)) = table p
   \<and> next_id (page_of (link_success l c b k p)) = next_id p"
  by (simp add: link_success_def replaceState_def pushState_def table_def
      split: prod.splits list.splits option.splits)

lemma table_done_handler:
  assumes "success (pending_options pd) = None \<or> success (pending_options pd) = Some (link_success l)"
  shows "set (table (page_of (done_handler pd body k q))) \<subseteq> set (table q) \<union> {(i, cs). next_id q \<le> i}"
proof -
  define cb where "cb = call_success pd body k q"
  from assms have c: "table (page_of cb) = table q \<and> next_id (page_of cb) = next_id q"
    by (auto simp: cb_def call_success_def link_success_nodes)
  obtain e1 q1 k1 where cbe: "cb = (e1, q1, k1)" by (cases cb) auto
  show ?thesis
  proof (cases e1)
    case (Some e)
    with cbe have "done_handler pd body k q = (Some e, q1, k1)"
      by (simp add: done_handler_def cb_def [symmetric])
    with c cbe show ?thesis by auto
  next
    case None
    obtain e2 new p2 where r: "replaceAll body (container pd) q1 = (e2, new, p2)"
      by (cases "replaceAll body (container pd) q1") auto
    with None cbe have "page_of (done_handler pd body k q) = p2
        \<or> page_of (done_handler pd body k q) = trigger ''replace:done'' new p2"
      by (cases e2) (simp_all add: done_handler_def cb_def [symmetric])
    with table_replaceAll [OF r] c cbe show ?thesis by auto
  qed
qed

lemma ajaxReplace_started:
  assumes "ajaxReplace [x] u (Some opts) p = (Some pd, p')"
  shows "\<not> marked x p
    \<and> container pd = closest (or_else (selector opts) ''*'') [x] p
    \<and> pending_options pd = opts
    \<and> p' = ajax u (http_method opts) (data opts)
              (trigger ''replace:start'' (container pd)
                 (addClass ''replace-active'' (container pd) p))"
proof (cases "closest ''.replace-active'' [x] p = []")
  case True
  with assms show ?thesis
    using closest_marker [of x p] by (auto simp: ajaxReplace_def Let_def)
next
  case False
  with assms show ?thesis by (simp add: ajaxReplace_def)
qed

lemma handler_started:
  assumes "h = link_click x ev k p \<or> h = form_submit x k p" and "started h = Some pd"
  shows "\<exists>u opts. ajaxReplace [x] u (Some opts) p = (Some pd, page_after h)
           \<and> (success opts = None \<or> success opts = Some (link_success x))"
proof -
  from assms(1) show ?thesis
  proof
    assume h: "h = link_click x ev k p"
    obtain ps k1 where d1: "jq_data x ''pushstate'' k p = (ps, k1)"
      by (cases "jq_data x ''pushstate'' k p")
    obtain sel k2 where d2: "jq_data x ''replace'' k1 p = (sel, k2)"
      by (cases "jq_data x ''replace'' k1 p")
    let ?o = "\<lparr>selector = sel, http_method = None, data = None,
                       success = Some (link_success x)\<rparr>"
    obtain r p' where a: "ajaxReplace [x] (attr x ''href'' p) (Some ?o) p = (r, p')"
      by (cases "ajaxReplace [x] (attr x ''href'' p) (Some ?o) p")
    with h assms(2) d1 d2 have "r = Some pd \<and> page_after h = p'"
      by (auto simp: link_click_def split: if_splits)
    with a show ?thesis by (intro exI [of _ "attr x ''href'' p"] exI [of _ ?o]) simp
  next
    assume h: "h = form_submit x k p"
    obtain sel k1 where d: "jq_data x ''replace'' k p = (sel, k1)"
      by (cases "jq_data x ''replace'' k p")
    let ?o = "\<lparr>selector = sel, http_method = attr x ''method'' p,
                    data = Some (serialize x p), success = None\<rparr>"
    obtain r p' where a: "ajaxReplace [x] (attr x ''action'' p) (Some ?o) p = (r, p')"
      by (cases "ajaxReplace [x] (attr x ''action'' p) (Some ?o) p")
    with h assms(2) d have "r = Some pd \<and> page_after h = p'"
      by (auto simp: form_submit_def)
    with a show ?thesis by (intro exI [of _ "attr x ''action'' p"] exI [of _ ?o]) simp
  qed
qed

lemma has_class_always:
  "c \<in> set (container pd) \<Longrightarrow> \<not> has_class c ''replace-active'' (always_handler pd q)"
  using removeClass_clears [of c "container pd" "''replace-active''" q]
  by (simp add: always_handler_def has_class_table)

lemma numbered_below: "numbered p \<Longrightarrow> c \<in> fst ` set (table p) \<Longrightarrow> c < next_id p"
  by (auto simp: numbered_def table_def ids_class_table)

lemma click_starts_request:
  "link_click 1 plain_click [] idle_page =
     \<lparr>defaultPrevented = True, started = Some link_request, page_after = busy_page,
      cache_after = [((1, ''replace''), ''.container'')]\<rparr>"
  by (simp add: link_click_def plain_click_def idle_page_def busy_page_def link_request_def
      container_kids_def ajaxReplace_def closest_def matches_def jq_data_def attr_def
      node_of_def addClass_def on_nodes_def add_class_def trigger_def ajax_def)

text \<open>
  C2: for a replace operation that a click or a submit has started (so the guard has let
  it pass), the container carries the class \<open>replace-active\<close> when the handler returns;
  it does not carry it after the \<open>always\<close> handler, whatever the page is then, nor
  after the whole settlement, successful or failed, in any later page; and removing the
  class from a node that does not carry it leaves the page as it is.
\<close>

theorem marker_lifecycle:
  assumes "h = link_click x ev k p \<or> h = form_submit x k p"
    and "started h = Some pd" and "c \<in> set (container pd)" and "numbered p"
  shows "has_class c ''replace-active'' (page_after h)
       \<and> (\<forall>q. \<not> has_class c ''replace-active'' (always_handler pd q))
       \<and> (\<forall>q r k'. next_id p \<le> next_id q \<longrightarrow>
             \<not> has_class c ''replace-active'' (page_of (settle pd r k' q)))
       \<and> (\<forall>q. \<not> has_class c ''replace-active'' q \<longrightarrow> removeClass ''replace-active'' [c] q = q)"
proof -
  from handler_started [OF assms(1,2)] obtain u opts where
    a: "ajaxReplace [x] u (Some opts) p = (Some pd, page_after h)"
    and s: "success opts = None \<or> success opts = Some (link_success x)" by blast
  note st = ajaxReplace_started [OF a]
  from st assms(3) have inp: "c \<in> fst ` set (table p)" using closest_in_page by metis
  from numbered_below [OF assms(4) this] have below: "c < next_id p" .
  from addClass_marks [OF assms(3) inp]
  have 1: "has_class c ''replace-active'' (page_after h)"
    using st by (simp add: has_class_table)
  have 2: "\<not> has_class c ''replace-active'' (always_handler pd q)" for q
    by (rule has_class_always [OF assms(3)])
  have 3: "\<not> has_class c ''replace-active'' (page_of (settle pd r k' q))"
    if "next_id p \<le> next_id q" for q r k'
  proof (cases r)
    case Fail
    then show ?thesis using 2 [of q] by (simp add: settle_def fail_handler_def has_class_table)
  next
    case (Done body)
    have n: "next_id (always_handler pd q) = next_id q"
      by (simp add: always_handler_def trigger_def removeClass_def other_fold)
    from s st have "success (pending_options pd) = None \<or> success (pending_options pd) = Some (link_success x)"
      by simp
    from table_done_handler [OF this, of body k' "always_handler pd q"] n
    have "set (table (page_of (settle pd r k' q)))
        \<subseteq> set (table (always_handler pd q)) \<union> {(i, cs). next_id q \<le> i}"
      by (simp add: settle_def Done)
    moreover from that below have "c < next_id q" by simp
    ultimately show ?thesis using 2 [of q] by (fastforce simp: has_class_table)
  qed
  from 1 2 3 show ?thesis using removeClass_noop by blast
qed

theorem marker_lifecycle_witness:
  "started (link_click 1 plain_click [] idle_page) = Some link_request
   \<and> 0 \<in> set (container link_request) \<and> numbered idle_page
   \<and> next_id idle_page \<le> next_id busy_page
   \<and> has_class 0 ''replace-active'' (page_after (link_click 1 plain_click [] idle_page))
   \<and> \<not> has_class 0 ''replace-active'' (always_handler link_request busy_page)
   \<and> \<not> has_class 0 ''replace-active'' (page_of (settle link_request (Done (Markup [])) [] busy_page))
   \<and> \<not> has_class 0 ''replace-active'' (page_of (settle link_request Fail [] busy_page))"
proof -
  have a: "link_click 1 plain_click [] idle_page = link_click 1 plain_click [] idle_page
           \<or> link_click 1 plain_click [] idle_page = form_submit 1 [] idle_page" by simp
  have b: "started (link_click 1 plain_click [] idle_page) = Some link_request"
    unfolding click_starts_request by simp
  have c: "0 \<in> set (container link_request)" by (simp add: link_request_def)
  have d: "numbered idle_page"
    by (simp add: numbered_def idle_page_def container_kids_def)
  have e: "next_id idle_page \<le> next_id busy_page"
    by (simp add: idle_page_def busy_page_def)
  show ?thesis using b c d e marker_lifecycle [OF a b c d] by simp
qed


section \<open>Replacement in place\<close>





lemma chain_absent: "x \<notin> set (ids F) \<Longrightarrow> chain x F = []"
  by (induction x F rule: chain.induct) auto

lemma chain_present: "x \<in> set (ids F) \<Longrightarrow> chain x F \<noteq> []"
  by (induction x F rule: chain.induct) (auto split: list.splits)


lemma ids_append: "ids (A @ B) = ids A @ ids B"
  by (simp add: ids_class_table class_table_append)

lemma chain_head: "chain x F = n # anc \<Longrightarrow> ident n = x"
  by (induction x F arbitrary: n anc rule: chain.induct)
     (auto split: if_splits list.splits simp: Cons_eq_append_conv)










section \<open>A successful response\<close>






section \<open>Push-state gating\<close>

text \<open>
  When the value that \<open>data('pushstate')\<close> returns is truthy, a click with push-state
  unsupported, or with the shift or the meta key held, makes the handler return at once:
  \<open>preventDefault\<close> is not called, no request is started and the page is unchanged.
\<close>

lemma truthy_pushstate_gate:
  assumes "truthy (data_value link ''pushstate'' k p)"
    and "\<not> pushState_supported p \<or> shiftKey event \<or> metaKey event"
  shows "\<not> defaultPrevented (link_click link event k p)
       \<and> started (link_click link event k p) = None
       \<and> page_after (link_click link event k p) = p"
  using assms by (auto simp: link_click_def data_value_def split: prod.splits)

text \<open>
  An attribute written without a value has the empty string as its value, and the empty
  string is not truthy: the handlers treat such a link like a link without the attribute.
\<close>

lemma empty_data_value_not_truthy:
  "map_of k (link, key) = None \<Longrightarrow> attr link (''data-'' @ key) p = Some [] \<Longrightarrow>
   \<not> truthy (data_value link key k p)"
  by (simp add: data_value_def jq_data_def)

text \<open>
  C8 fails on the link as the README and the header comment (lines 23 and 24) describe it,
  a link that has the attribute \<open>data-pushstate\<close>: written without a value the attribute
  reads as the empty string, the test on line 67 fails and the gate is skipped. On
  \<open>readme_page\<close> a click with the shift key held, and a plain click where push-state is
  not supported, both call \<open>preventDefault\<close> and send the request.
\<close>

theorem readme_link_not_gated:
  "attr 1 ''data-pushstate'' readme_page = Some []
   \<and> shiftKey shift_click
   \<and> defaultPrevented (link_click 1 shift_click [] readme_page)
   \<and> requests (page_after (link_click 1 shift_click [] readme_page)) =
        [\<lparr>req_url = Some ''/foo'', req_type = None, req_data = None\<rparr>]
   \<and> \<not> pushState_supported (readme_page\<lparr>pushState_supported := False\<rparr>)
   \<and> defaultPrevented
        (link_click 1 plain_click [] (readme_page\<lparr>pushState_supported := False\<rparr>))
   \<and> requests (page_after
        (link_click 1 plain_click [] (readme_page\<lparr>pushState_supported := False\<rparr>))) =
        [\<lparr>req_url = Some ''/foo'', req_type = None, req_data = None\<rparr>]"
  by (simp add: link_click_def shift_click_def plain_click_def readme_page_def readme_link_def
      jq_data_def attr_def node_of_def ajaxReplace_def closest_def matches_def addClass_def
      on_nodes_def add_class_def trigger_def ajax_def)


section \<open>History integration\<close>

lemma ident_change [simp]: "ident (change_classes y g n) = ident n"
  by (cases n) simp

lemma attrs_change [simp]: "attrs (change_classes y g n) = attrs n"
  by (cases n) simp

lemma chain_change:
  "chain x (map (change_classes y g) F) = map (change_classes y g) (chain x F)"
proof (induction x F rule: chain.induct)
  case (1 x)
  then show ?case by simp
next
  case (2 x i t c a ks rest)
  show ?case
  proof (cases "i = x")
    case True
    then show ?thesis by simp
  next
    case False
    show ?thesis
    proof (cases "chain x ks")
      case Nil
      with False 2 show ?thesis by simp
    next
      case (Cons n ns)
      with False 2 show ?thesis by simp
    qed
  qed
qed

lemma node_of_change:
  "node_of x (on_nodes (map (change_classes y g)) p) = map_option (change_classes y g) (node_of x p)"
proof -
  have "chain x (live (on_nodes (map (change_classes y g)) p) @ detached (on_nodes (map (change_classes y g)) p))
      = map (change_classes y g) (chain x (live p @ detached p))"
    using chain_change [of x y g "live p @ detached p"] by (simp add: on_nodes_def)
  then show ?thesis by (cases "chain x (live p @ detached p)") (simp_all add: node_of_def)
qed

lemma node_of_always:
  "container pd = [c] \<Longrightarrow>
   node_of x (always_handler pd q) =
     map_option (change_classes c (remove_class ''replace-active'')) (node_of x q)"
  using node_of_change [of x c "remove_class ''replace-active''" q]
  by (simp add: always_handler_def removeClass_def trigger_def node_of_def)

lemma attr_always:
  "container pd = [c] \<Longrightarrow> attr x name (always_handler pd q) = attr x name q"
  by (cases "node_of x q") (simp_all add: attr_def node_of_always)

lemma history_always: "history (always_handler pd q) = history q"
  by (simp add: always_handler_def trigger_def removeClass_def other_fold)

lemma jq_data_always:
  "container pd = [c] \<Longrightarrow> jq_data x key k (always_handler pd q) = jq_data x key k q"
  by (simp add: jq_data_def attr_always split: option.splits)

lemma jq_data_again:
  "jq_data x key k p = (v, k1) \<Longrightarrow> jq_data x key k1 p = (v, k1)"
proof (cases "map_of k (x, key)")
  case (Some w)
  assume "jq_data x key k p = (v, k1)"
  with Some have "v = Some w" "k1 = k" by (simp_all add: jq_data_def)
  with Some show ?thesis by (simp add: jq_data_def)
next
  case None
  assume a: "jq_data x key k p = (v, k1)"
  show ?thesis
  proof (cases "attr x (''data-'' @ key) p")
    case n: None
    with None a show ?thesis by (simp add: jq_data_def)
  next
    case (Some w)
    with None a have "v = Some w" "k1 = ((x, key), w) # k" by (simp_all add: jq_data_def)
    then show ?thesis by (simp add: jq_data_def)
  qed
qed

lemma jq_data_other_key:
  "jq_data x key' k p = (v, k1) \<Longrightarrow> key \<noteq> key' \<Longrightarrow>
   fst (jq_data x key k1 p) = fst (jq_data x key k p)"
proof -
  assume a: "jq_data x key' k p = (v, k1)" and n: "key \<noteq> key'"
  from a have "k1 = k \<or> (\<exists>w. k1 = ((x, key'), w) # k)"
    by (auto simp: jq_data_def split: option.splits)
  with n have "map_of k1 (x, key) = map_of k (x, key)" by auto
  then show ?thesis by (simp add: jq_data_def split: option.splits)
qed

lemma link_click_started:
  assumes "started (link_click link ev k p) = Some pd"
  shows "success (pending_options pd) = Some (link_success link)"
proof -
  from handler_started [OF disjI1 [OF refl] assms] obtain u opts where
    a: "ajaxReplace [link] u (Some opts) p = (Some pd, page_after (link_click link ev k p))"
    by blast
  obtain ps k1 where d1: "jq_data link ''pushstate'' k p = (ps, k1)"
    by (cases "jq_data link ''pushstate'' k p")
  obtain sel k2 where d2: "jq_data link ''replace'' k1 p = (sel, k2)"
    by (cases "jq_data link ''replace'' k1 p")
  let ?o = "\<lparr>selector = sel, http_method = None, data = None,
                       success = Some (link_success link)\<rparr>"
  obtain r p' where b: "ajaxReplace [link] (attr link ''href'' p) (Some ?o) p = (r, p')"
    by (cases "ajaxReplace [link] (attr link ''href'' p) (Some ?o) p")
  with assms d1 d2 have "r = Some pd" by (auto simp: link_click_def split: if_splits)
  with b ajaxReplace_started [of link "attr link ''href'' p" ?o p pd p'] show ?thesis by simp
qed

lemma history_done_handler:
  assumes "call_success pd body k q = (None, q1, k1)"
  shows "history (page_of (done_handler pd body k q)) = history q1"
proof -
  obtain e new p2 where r: "replaceAll body (container pd) q1 = (e, new, p2)"
    by (cases "replaceAll body (container pd) q1") auto
  with assms have "page_of (done_handler pd body k q) = p2
      \<or> page_of (done_handler pd body k q) = trigger ''replace:done'' new p2"
    by (cases e) (simp_all add: done_handler_def)
  with replaceAll_other [OF r] show ?thesis by (auto simp: trigger_def)
qed

text \<open>
  When a request started by a click on a link succeeds, the value that
  \<open>data('pushstate')\<close> returns for the link is truthy and the request has a container,
  exactly two history writes are added, in this order: \<open>replaceState\<close> with the selector of
  the link and the outer markup of the container as it is before the replacement (the
  marker already removed), then \<open>pushState\<close> with the selector, the response body and the
  \<open>href\<close> of the link.
\<close>

lemma truthy_pushstate_writes_history:
  assumes "started (link_click link ev k0 p) = Some pd" and "container pd = [c]"
    and "truthy (data_value link ''pushstate'' k q)" and "node_of c q = Some n"
  shows "history (page_of (settle pd (Done body) k q)) =
           history q @
           [ReplaceState \<lparr>state_selector = data_value link ''replace'' k q,
              state_data = Markup [outerHTML (change_classes c (remove_class ''replace-active'') n)]\<rparr>,
            PushState \<lparr>state_selector = data_value link ''replace'' k q, state_data = body\<rparr>
                      (attr link ''href'' q)]"
proof -
  let ?q0 = "always_handler pd q"
  let ?n = "change_classes c (remove_class ''replace-active'') n"
  let ?R = "\<lparr>state_selector = data_value link ''replace'' k q, state_data = Markup [outerHTML ?n]\<rparr>"
  let ?P = "\<lparr>state_selector = data_value link ''replace'' k q, state_data = body\<rparr>"
  from link_click_started [OF assms(1)]
  have cb: "success (pending_options pd) = Some (link_success link)" .
  have n: "node_of c ?q0 = Some ?n"
    using assms(4) by (simp add: node_of_always [OF assms(2)])
  obtain ps k1 where d1: "jq_data link ''pushstate'' k q = (ps, k1)"
    by (cases "jq_data link ''pushstate'' k q")
  obtain sel k2 where d2: "jq_data link ''replace'' k1 q = (sel, k2)"
    by (cases "jq_data link ''replace'' k1 q")
  from d1 assms(3) have t: "truthy ps" by (simp add: data_value_def)
  from jq_data_other_key [OF d1, of "''replace''"] d2
  have sel: "sel = data_value link ''replace'' k q" by (simp add: data_value_def)
  note d3 = jq_data_again [OF d2]
  have "call_success pd body k ?q0 =
      (None, pushState ?P (attr link ''href'' q) (replaceState ?R ?q0), k2)"
    using cb n t d1 d2 d3 sel assms(2)
    by (simp add: call_success_def link_success_def jq_data_always [OF assms(2)]
        attr_always [OF assms(2)])
  from history_done_handler [OF this] show ?thesis
    by (simp add: settle_def pushState_def replaceState_def history_always)
qed

text \<open>
  C3 fails on the link as the README and the header comment (lines 23 and 24) describe it:
  written without a value, \<open>data-pushstate\<close> reads as the empty string, which is not
  truthy, and the success callback skips both history writes. On \<open>readme_page\<close> a plain
  click starts the request, the response succeeds and replaces the link, and the history
  stays empty.
\<close>

theorem readme_link_writes_no_history:
  "attr 1 ''data-pushstate'' readme_page = Some []
   \<and> pushState_supported readme_page
   \<and> started (link_click 1 plain_click [] readme_page) = Some readme_request
   \<and> thrown (settle readme_request (Done (Markup new_container))
        (cache_after (link_click 1 plain_click [] readme_page))
        (page_after (link_click 1 plain_click [] readme_page))) = None
   \<and> live (page_of (settle readme_request (Done (Markup new_container))
        (cache_after (link_click 1 plain_click [] readme_page))
        (page_after (link_click 1 plain_click [] readme_page)))) =
        [Elem 0 ''div'' [''container''] []
           [Elem 2 ''div'' [''container''] [] [Elem 3 ''b'' [] [] []]]]
   \<and> history (page_of (settle readme_request (Done (Markup new_container))
        (cache_after (link_click 1 plain_click [] readme_page))
        (page_after (link_click 1 plain_click [] readme_page)))) = []"
proof -
  let ?busy = "readme_page\<lparr>live := [Elem 0 ''div'' [''container''] []
        [Elem 1 ''a'' [''replace-active'']
           [(''href'', ''/foo''), (''data-replace'', []), (''data-pushstate'', [])] []]],
      events := [(''replace:start'', 1)],
      requests := [\<lparr>req_url = Some ''/foo'', req_type = None, req_data = None\<rparr>]\<rparr>"
  let ?k = "[((1, ''replace''), []), ((1::nat, ''pushstate''), [])]"
  have c: "link_click 1 plain_click [] readme_page =
      \<lparr>defaultPrevented = True, started = Some readme_request, page_after = ?busy,
       cache_after = ?k\<rparr>"
    by (simp add: link_click_def plain_click_def readme_page_def readme_link_def
        readme_request_def jq_data_def attr_def node_of_def ajaxReplace_def closest_def
        matches_def addClass_def on_nodes_def add_class_def trigger_def ajax_def)
  have s: "settle readme_request (Done (Markup new_container)) ?k ?busy =
      (None,
       ?busy\<lparr>live := [Elem 0 ''div'' [''container''] []
                  [Elem 2 ''div'' [''container''] [] [Elem 3 ''b'' [] [] []]]],
          detached := [readme_link], next_id := 4,
          events := [(''replace:start'', 1), (''replace:always'', 1), (''replace:done'', 2)]\<rparr>,
       ?k)"
    by (simp add: settle_def done_handler_def call_success_def always_handler_def
        readme_request_def link_success_def jq_data_def readme_page_def readme_link_def
        removeClass_def on_nodes_def remove_class_def trigger_def new_container_def
        replaceWith_def)
  have p: "page_after (link_click 1 plain_click [] readme_page) = ?busy"
    "cache_after (link_click 1 plain_click [] readme_page) = ?k"
    "started (link_click 1 plain_click [] readme_page) = Some readme_request"
    unfolding c by simp_all
  have a: "attr 1 ''data-pushstate'' readme_page = Some []" "pushState_supported readme_page"
    by (simp_all add: readme_page_def readme_link_def attr_def node_of_def)
  show ?thesis
    unfolding p s using a by (simp add: readme_page_def)
qed


section \<open>A selector that matches nothing\<close>

text \<open>
  Without a success callback a request with an empty container settles without a trace, and
  so does a history navigation whose selector matches nothing.
\<close>

lemma unmatched_selector_silent:
  assumes "container pd = []" and "success (pending_options pd) = None"
  shows "settle pd r k q = (None, q, k)"
proof (cases r)
  case Fail
  with assms show ?thesis
    by (simp add: settle_def always_handler_def fail_handler_def removeClass_def trigger_def)
next
  case (Done body)
  have "replaceAll body [] q = (None, [], q)" by (cases body) simp_all
  with Done assms show ?thesis
    by (simp add: settle_def done_handler_def call_success_def always_handler_def
        removeClass_def trigger_def del: replaceAll.simps)
qed

lemma unmatched_selector_popstate:
  assumes "select sel p = []"
  shows "popstate (Some \<lparr>state_selector = Some sel, state_data = d\<rparr>) p = (None, p)"
proof -
  have "replaceAll d [] p = (None, [], p)" by (cases d) simp_all
  with assms show ?thesis by (simp add: popstate_def trigger_def del: replaceAll.simps)
qed

text \<open>
  C9 fails on a link that asks for history integration: its success callback reads
  \<open>$container[0].outerHTML\<close>, and with an empty container that throws a TypeError. On
  \<open>stray_page\<close> the click starts a request with an empty container, and the successful
  response ends in the TypeError, with no history write.
\<close>

theorem unmatched_selector_pushstate_throws:
  "link_click 1 plain_click [] stray_page =
     \<lparr>defaultPrevented = True, started = Some stray_request,
      page_after = stray_page\<lparr>requests :=
        [\<lparr>req_url = Some ''/foo'', req_type = None, req_data = None\<rparr>]\<rparr>,
      cache_after = [((1, ''replace''), ''.missing''), ((1, ''pushstate''), ''true'')]\<rparr>
   \<and> settle stray_request (Done (Markup new_container))
        [((1, ''replace''), ''.missing''), ((1, ''pushstate''), ''true'')]
        (stray_page\<lparr>requests :=
           [\<lparr>req_url = Some ''/foo'', req_type = None, req_data = None\<rparr>]\<rparr>) =
       (Some TypeError,
        stray_page\<lparr>requests :=
           [\<lparr>req_url = Some ''/foo'', req_type = None, req_data = None\<rparr>]\<rparr>,
        [((1, ''replace''), ''.missing''), ((1, ''pushstate''), ''true'')])"
  by (simp add: link_click_def plain_click_def stray_page_def stray_request_def
      ajaxReplace_def closest_def matches_def jq_data_def attr_def node_of_def
      addClass_def trigger_def ajax_def settle_def done_handler_def call_success_def
      always_handler_def removeClass_def link_success_def)


section \<open>Back and forward navigation\<close>

lemma flatten_append: "flatten (A @ B) = flatten A @ flatten B"
  by (induction A rule: flatten.induct) simp_all


















section \<open>Buttons and forms\<close>

lemma chain_append:
  "chain x (A @ B) = (if chain x A = [] then chain x B else chain x A)"
  by (induction x A rule: chain.induct) (auto split: list.splits)

lemma append_child_absent: "f \<notin> set (ids F) \<Longrightarrow> map (append_child f new) F = F"
  by (induction F rule: ids.induct) auto

lemma append_child_sel [simp]:
  "ident (append_child f new n) = ident n" "tag (append_child f new n) = tag n"
  "classes (append_child f new n) = classes n" "attrs (append_child f new n) = attrs n"
  by (cases n; simp)+

lemma matches_append_child [simp]: "matches sel (append_child f new n) = matches sel n"
  by (simp add: matches_def split: list.splits)

lemma chain_append_child:
  "x \<notin> set (ids [new]) \<Longrightarrow>
   chain x (map (append_child f new) F) = map (append_child f new) (chain x F)"
proof (induction x F rule: chain.induct)
  case (1 x)
  then show ?case by simp
next
  case (2 x i t c a ks rest)
  have n: "chain x [new] = []" by (rule chain_absent [OF "2.prems"])
  show ?case
  proof (cases "i = x")
    case True
    then show ?thesis by simp
  next
    case False
    have k: "chain x (map (append_child f new) ks @ (if i = f then [new] else [])) =
        map (append_child f new) (chain x ks)"
      using "2.IH"(1) [OF False "2.prems"] n by (simp add: chain_append)
    show ?thesis
    proof (cases "chain x ks")
      case Nil
      with False k "2.IH"(2) [OF False Nil "2.prems"] show ?thesis by simp
    next
      case (Cons m ms)
      with False k show ?thesis by simp
    qed
  qed
qed


lemma button_click_form:
  assumes "closest ''form'' [b] p = [f]"
  shows "button_click b p =
    on_nodes (map (append_child f (hidden_input (next_id p) (prop_name b p) (val b p))))
      (p\<lparr>next_id := Suc (next_id p)\<rparr>)"
  using assms by (simp add: button_click_def appendTo_def closest_def)

lemma ids_hidden_input [simp]: "ids [hidden_input k name v] = [k]"
  by (simp add: hidden_input_def)

lemma node_of_append_child:
  assumes "x \<notin> set (ids [new])"
  shows "node_of x (on_nodes (map (append_child f new)) p) =
           map_option (append_child f new) (node_of x p)"
proof -
  have "chain x (live (on_nodes (map (append_child f new)) p)
                 @ detached (on_nodes (map (append_child f new)) p))
      = map (append_child f new) (chain x (live p @ detached p))"
    using chain_append_child [OF assms, of f "live p @ detached p"] by (simp add: on_nodes_def)
  then show ?thesis by (cases "chain x (live p @ detached p)") (simp_all add: node_of_def)
qed

lemma find_matches_append_child:
  "find (matches sel) (map (append_child f new) ns) =
     map_option (append_child f new) (find (matches sel) ns)"
  by (induction ns) simp_all

lemma closest_append_child:
  assumes "x \<notin> set (ids [new])"
  shows "closest sel [x] (on_nodes (map (append_child f new)) p) = closest sel [x] p"
proof -
  have c: "chain x (live (on_nodes (map (append_child f new)) p)
                 @ detached (on_nodes (map (append_child f new)) p))
      = map (append_child f new) (chain x (live p @ detached p))"
    using chain_append_child [OF assms, of f "live p @ detached p"] by (simp add: on_nodes_def)
  show ?thesis
    by (cases "find (matches sel) (chain x (live p @ detached p))")
       (simp_all add: closest_def c find_matches_append_child)
qed

lemma marked_append_child:
  assumes "x \<notin> set (ids [new])"
  shows "marked x (on_nodes (map (append_child f new)) p) = marked x p"
  using closest_append_child [OF assms, of "''.replace-active''" f p]
  by (simp add: closest_marker [symmetric])

lemma distinct_subtree:
  "n \<in> set (chain x F) \<Longrightarrow> distinct (ids F) \<Longrightarrow> distinct (ids [n])"
  by (induction x F rule: chain.induct) (auto split: if_splits list.splits)

lemma kids_append_child:
  assumes "node_of f p = Some n" and "distinct (ids (live p @ detached p))"
  shows "kids (append_child f new n) = kids n @ [new]"
proof -
  from assms(1) obtain anc where c: "chain f (live p @ detached p) = n # anc"
    by (cases "chain f (live p @ detached p)") (simp_all add: node_of_def)
  then have i: "ident n = f" by (rule chain_head)
  from c have "n \<in> set (chain f (live p @ detached p))" by simp
  from distinct_subtree [OF this assms(2)] have d: "distinct (ids [n])" .
  obtain i' t cl a ks where n: "n = Elem i' t cl a ks" by (cases n)
  with d i have "f \<notin> set (ids ks)" by simp
  with n i show ?thesis by (simp add: append_child_absent)
qed


lemma ids_append_child:
  "distinct (ids F) \<Longrightarrow> ids [new] = [k] \<Longrightarrow> k \<notin> set (ids F) \<Longrightarrow>
   distinct (ids (map (append_child f new) F))
   \<and> set (ids (map (append_child f new) F)) \<subseteq> insert k (set (ids F))"
proof (induction F rule: ids.induct)
  case 1
  then show ?case by simp
next
  case (2 i t c a ks rest)
  from "2.prems" have dk: "distinct (ids ks)" and dr: "distinct (ids rest)"
    and kk: "k \<notin> set (ids ks)" and kr: "k \<notin> set (ids rest)" and ki: "k \<noteq> i"
    and ik: "i \<notin> set (ids ks)" and ir: "i \<notin> set (ids rest)"
    and dj: "set (ids ks) \<inter> set (ids rest) = {}"
    by auto
  note a = "2.IH"(1) [OF dk "2.prems"(2) kk]
  note b = "2.IH"(2) [OF dr "2.prems"(2) kr]
  have n: "ids [new] = [k]" by (rule "2.prems"(2))
  then have n': "ids (A @ [new]) = ids A @ [k]" for A by (simp add: ids_append)
  show ?case
  proof (cases "i = f")
    case True
    with ik ir have "map (append_child f new) ks = ks" "map (append_child f new) rest = rest"
      by (simp_all add: append_child_absent)
    with True "2.prems" n' show ?thesis by (auto simp: ids_append)
  next
    case False
    have "set (ids (map (append_child f new) ks)) \<inter> set (ids (map (append_child f new) rest)) = {}"
    proof (cases "f \<in> set (ids ks)")
      case True
      with dj have "f \<notin> set (ids rest)" by auto
      then have "map (append_child f new) rest = rest" by (rule append_child_absent)
      with a dj kr show ?thesis by auto
    next
      case False
      then have "map (append_child f new) ks = ks" by (rule append_child_absent)
      with b dj kk show ?thesis by auto
    qed
    with a b False ik ir ki show ?thesis by (auto simp: ids_append)
  qed
qed

lemma node_of_next_id [simp]: "node_of x (p\<lparr>next_id := k\<rparr>) = node_of x p"
  by (simp add: node_of_def)

lemma closest_present:
  assumes "closest sel [x] p = [f]" and "numbered p"
  shows "f < next_id p \<and> x < next_id p \<and> (\<exists>n. node_of f p = Some n)"
proof -
  have "f \<in> set (closest sel [x] p)" using assms(1) by simp
  from closest_in_page [OF this] have f: "f \<in> set (ids (live p @ detached p))"
    by (simp add: table_def ids_class_table)
  then have "chain f (live p @ detached p) \<noteq> []" by (rule chain_present)
  then have n: "\<exists>n. node_of f p = Some n"
    by (cases "chain f (live p @ detached p)") (simp_all add: node_of_def)
  have "chain x (live p @ detached p) \<noteq> []"
    using assms(1) by (auto simp: closest_def)
  then have "x \<in> set (ids (live p @ detached p))" using chain_absent by blast
  with f n assms(2) show ?thesis by (auto simp: numbered_def)
qed

lemma successful_hidden_input:
  "successful (hidden_input k name v) = (name \<noteq> [])"
  by (simp add: successful_def hidden_input_def field_name_def)

lemma serialize_button_click:
  assumes "closest ''form'' [b] p = [f]" and "distinct (ids (live p @ detached p))"
    and "numbered p"
  shows "serialize f (button_click b p) =
           serialize f p @ (if prop_name b p = [] then [] else [(prop_name b p, val b p)])"
proof -
  let ?new = "hidden_input (next_id p) (prop_name b p) (val b p)"
  from closest_present [OF assms(1,3)] obtain n where
    lt: "f < next_id p" and n: "node_of f p = Some n" by blast
  have nf: "f \<notin> set (ids [?new])" using lt by simp
  have "node_of f (button_click b p) = Some (append_child f ?new n)"
    using n by (simp add: button_click_form [OF assms(1)] node_of_append_child [OF nf])
  moreover have "kids (append_child f ?new n) = kids n @ [?new]"
    by (rule kids_append_child [OF n assms(2)])
  moreover have "flatten [?new] = [?new]" by (simp add: hidden_input_def)
  ultimately show ?thesis
    using n
    by (simp add: serialize_def flatten_append successful_hidden_input)
       (simp add: hidden_input_def field_name_def field_value_def)
qed

lemma button_click_wf:
  assumes "closest ''form'' [b] p = [f]" and "distinct (ids (live p @ detached p))"
    and "numbered p"
  shows "distinct (ids (live (button_click b p) @ detached (button_click b p)))
       \<and> numbered (button_click b p) \<and> next_id (button_click b p) = Suc (next_id p)"
proof -
  let ?new = "hidden_input (next_id p) (prop_name b p) (val b p)"
  have k: "next_id p \<notin> set (ids (live p @ detached p))"
    using assms(3) by (auto simp: numbered_def)
  have e: "live (button_click b p) @ detached (button_click b p) =
      map (append_child f ?new) (live p @ detached p)"
    by (simp add: button_click_form [OF assms(1)] on_nodes_def)
  from ids_append_child [OF assms(2) _ k, of ?new f]
  have "distinct (ids (map (append_child f ?new) (live p @ detached p)))"
    and "set (ids (map (append_child f ?new) (live p @ detached p)))
           \<subseteq> insert (next_id p) (set (ids (live p @ detached p)))"
    by simp_all
  moreover have "next_id (button_click b p) = Suc (next_id p)"
    by (simp add: button_click_form [OF assms(1)] on_nodes_def)
  ultimately show ?thesis
    using assms(3) unfolding e numbered_def by (auto simp: less_Suc_eq)
qed


lemma button_click_elsewhere:
  assumes "closest ''form'' [b] p = [f]" and "x < next_id p"
  shows "closest sel [x] (button_click b p) = closest sel [x] p
       \<and> attr x name (button_click b p) = attr x name p
       \<and> marked x (button_click b p) = marked x p"
proof -
  let ?new = "hidden_input (next_id p) (prop_name b p) (val b p)"
  let ?p = "p\<lparr>next_id := Suc (next_id p)\<rparr>"
  have nx: "x \<notin> set (ids [?new])" using assms(2) by simp
  have 1: "closest sel [x] ?p = closest sel [x] p" by (simp add: closest_def)
  have 2: "marked x ?p = marked x p" by (simp add: marked_def)
  have 3: "attr x name (on_nodes (map (append_child f ?new)) ?p) = attr x name p"
    by (cases "node_of x p") (simp_all add: attr_def node_of_append_child [OF nx])
  show ?thesis
    using closest_append_child [OF nx, of sel f ?p] marked_append_child [OF nx, of f ?p] 1 2 3
    by (simp add: button_click_form [OF assms(1)])
qed

lemma form_kids_button_click:
  assumes "closest ''form'' [b] p = [f]" and "distinct (ids (live p @ detached p))"
    and "numbered p"
  shows "form_kids f (button_click b p) =
           form_kids f p @ [hidden_input (next_id p) (prop_name b p) (val b p)]"
proof -
  let ?new = "hidden_input (next_id p) (prop_name b p) (val b p)"
  from closest_present [OF assms(1,3)] obtain n where
    lt: "f < next_id p" and n: "node_of f p = Some n" by blast
  have nf: "f \<notin> set (ids [?new])" using lt by simp
  have "node_of f (button_click b p) = Some (append_child f ?new n)"
    using n by (simp add: button_click_form [OF assms(1)] node_of_append_child [OF nf])
  with kids_append_child [OF n assms(2), of ?new] n show ?thesis
    by (simp add: form_kids_def)
qed

lemma ajaxReplace_request:
  assumes "\<not> marked x p"
  shows "fst (ajaxReplace [x] u (Some opts) p) \<noteq> None
       \<and> requests (snd (ajaxReplace [x] u (Some opts) p)) =
            requests p @ [\<lparr>req_url = u, req_type = http_method opts, req_data = data opts\<rparr>]"
  using assms closest_marker [of x p]
  by (simp add: ajaxReplace_def Let_def ajax_def trigger_def addClass_def other_fold)

lemma idle_page_wf:
  "distinct (ids (live idle_page @ detached idle_page)) \<and> numbered idle_page"
  by (simp add: numbered_def idle_page_def container_kids_def)

lemma idle_page_form:
  "closest ''form'' [4] idle_page = [2] \<and> closest ''form'' [5] idle_page = [2]
   \<and> \<not> marked 2 idle_page"
  by (simp add: closest_def marked_def matches_def idle_page_def container_kids_def)

lemma idle_page_buttons:
  "prop_name 4 idle_page = ''go'' \<and> val 4 idle_page = ''yes''
   \<and> prop_name 5 idle_page = [] \<and> val 5 idle_page = ''anonymous''"
  by (simp add: prop_name_def val_def attr_def node_of_def idle_page_def container_kids_def)

lemma idle_page_fields:
  "serialize 2 idle_page = [(''q'', ''tea'')] \<and> attr 2 ''action'' idle_page = Some ''/bar''
   \<and> attr 2 ''method'' idle_page = Some ''POST'' \<and> requests idle_page = []"
  by (simp add: serialize_def attr_def node_of_def idle_page_def container_kids_def
      successful_def field_name_def field_value_def)

text \<open>
  C7, as the claim states it, fails for a button without a name: its hidden input is
  appended with an empty name, and \<open>serialize\<close> leaves out a control whose name is
  empty. On \<open>idle_page\<close>, after a click on the unnamed button, the submitted payload is
  the field \<open>q\<close> alone.
\<close>

theorem unnamed_button_not_submitted:
  "closest ''form'' [5] idle_page = [2] \<and> \<not> marked 2 idle_page
   \<and> val 5 idle_page = ''anonymous''
   \<and> requests (page_after (form_submit 2 [] (button_click 5 idle_page))) =
        [\<lparr>req_url = Some ''/bar'', req_type = Some ''POST'',
          req_data = Some [(''q'', ''tea'')]\<rparr>]"
  by (simp add: closest_def marked_def matches_def idle_page_def container_kids_def
      val_def prop_name_def attr_def node_of_def button_click_def appendTo_def on_nodes_def
      hidden_input_def form_submit_def ajaxReplace_def jq_data_def serialize_def
      successful_def field_name_def field_value_def addClass_def add_class_def trigger_def
      ajax_def)

text \<open>
  C7, amended: after a click on a button of the form, a submit of the form that the guard
  lets pass issues exactly one request, whose URL is the \<open>action\<close> of the form, whose
  method is its \<open>method\<close> attribute, and whose payload is the serialized field set of the
  form as it was before the click, followed by the name and value of the button when its
  name is not empty. A link that starts a request issues it to its \<open>href\<close> with no
  method (jQuery's default, GET) and no payload.
\<close>

theorem submit_sends_form_fields:
  assumes "closest ''form'' [b] p = [f]" and "distinct (ids (live p @ detached p))"
    and "numbered p" and "\<not> marked f p"
  shows "started (form_submit f k (button_click b p)) \<noteq> None
       \<and> requests (page_after (form_submit f k (button_click b p))) =
            requests p @
            [\<lparr>req_url = attr f ''action'' p, req_type = attr f ''method'' p,
              req_data = Some (serialize f p @
                 (if prop_name b p = [] then [] else [(prop_name b p, val b p)]))\<rparr>]
       \<and> (started (link_click l ev k p) \<noteq> None \<longrightarrow>
            requests (page_after (link_click l ev k p)) =
              requests p @ [\<lparr>req_url = attr l ''href'' p, req_type = None, req_data = None\<rparr>])"
proof -
  let ?p1 = "button_click b p"
  from closest_present [OF assms(1,3)] have lt: "f < next_id p" by simp
  from button_click_elsewhere [OF assms(1) lt] assms(4)
  have m: "\<not> marked f ?p1" and a: "\<And>name. attr f name ?p1 = attr f name p"
    by simp_all
  have r: "requests ?p1 = requests p"
    by (simp add: button_click_form [OF assms(1)] on_nodes_def)
  let ?o = "\<lparr>selector = data_value f ''replace'' k ?p1, http_method = attr f ''method'' ?p1,
                    data = Some (serialize f ?p1), success = None\<rparr>"
  from ajaxReplace_request [OF m, of "attr f ''action'' ?p1" ?o]
  have 1: "started (form_submit f k ?p1) \<noteq> None
       \<and> requests (page_after (form_submit f k ?p1)) =
            requests p @
            [\<lparr>req_url = attr f ''action'' p, req_type = attr f ''method'' p,
              req_data = Some (serialize f p @
                 (if prop_name b p = [] then [] else [(prop_name b p, val b p)]))\<rparr>]"
    by (simp add: form_submit_def data_value_def split_beta a r
        serialize_button_click [OF assms(1,2,3)])
  have 2: "requests (page_after (link_click l ev k p)) =
              requests p @ [\<lparr>req_url = attr l ''href'' p, req_type = None, req_data = None\<rparr>]"
    if s: "started (link_click l ev k p) \<noteq> None"
  proof -
    have nm: "\<not> marked l p"
    proof
      assume "marked l p"
      from ajaxReplace_guarded [OF this] have "started (link_click l ev k p) = None"
        by (simp add: link_click_def split_beta)
      with s show False by simp
    qed
    from s ajaxReplace_request [OF nm, of "attr l ''href'' p"
        "\<lparr>selector = data_value l ''replace'' (snd (jq_data l ''pushstate'' k p)) p,
          http_method = None, data = None, success = Some (link_success l)\<rparr>"]
    show ?thesis by (auto simp: link_click_def data_value_def split_beta split: if_splits)
  qed
  from 1 2 show ?thesis by blast
qed

theorem submit_sends_form_fields_witness:
  "closest ''form'' [4] idle_page = [2] \<and> \<not> marked 2 idle_page
   \<and> requests (page_after (form_submit 2 [] (button_click 4 idle_page))) =
        [\<lparr>req_url = Some ''/bar'', req_type = Some ''POST'',
          req_data = Some [(''q'', ''tea''), (''go'', ''yes'')]\<rparr>]
   \<and> requests (page_after (link_click 1 plain_click [] idle_page)) =
        [\<lparr>req_url = Some ''/foo'', req_type = None, req_data = None\<rparr>]"
proof -
  have a: "closest ''form'' [4] idle_page = [2]" and d: "\<not> marked 2 idle_page"
    using idle_page_form by simp_all
  have b: "distinct (ids (live idle_page @ detached idle_page))" and c: "numbered idle_page"
    using idle_page_wf by simp_all
  have e: "started (link_click 1 plain_click [] idle_page) \<noteq> None"
    unfolding click_starts_request by simp
  have f: "attr 1 ''href'' idle_page = Some ''/foo''"
    by (simp add: attr_def node_of_def idle_page_def container_kids_def)
  show ?thesis
    using a d e f submit_sends_form_fields [OF a b c d, of "[]" 1 plain_click]
    by (simp add: idle_page_buttons idle_page_fields)
qed

text \<open>
  C10, as the claim states it, fails for the same reason: the hidden input of the unnamed
  button is appended to the form, but its pair is not in the serialized field set.
\<close>

theorem unnamed_button_not_serialized:
  "closest ''form'' [5] idle_page = [2]
   \<and> (prop_name 5 idle_page, val 5 idle_page) \<notin> set (serialize 2 (button_click 5 idle_page))
   \<and> form_kids 2 (button_click 5 idle_page) =
        form_kids 2 idle_page @ [hidden_input 6 [] ''anonymous'']"
  by (simp add: closest_def matches_def idle_page_def container_kids_def
      val_def prop_name_def attr_def node_of_def button_click_def appendTo_def on_nodes_def
      hidden_input_def serialize_def form_kids_def
      successful_def field_name_def field_value_def)

text \<open>
  C10, amended: every click on a button of the form, whatever its type and whatever
  follows, appends one new hidden input with the name and the value of the button as the
  last child of the form, and removes nothing. After the clicks on the buttons \<open>bs\<close> the
  children of the form are the former ones followed by the hidden inputs in click order,
  and the serialized field set is the former one followed by the pairs of the clicked
  buttons whose name is not empty, in click order, repeated clicks included.
\<close>

theorem button_clicks_accumulate:
  assumes "distinct (ids (live p @ detached p))" and "numbered p"
    and "\<forall>b \<in> set bs. closest ''form'' [b] p = [f]"
  shows "serialize f (fold button_click bs p) =
           serialize f p @ filter (\<lambda>(name, v). name \<noteq> []) (map (\<lambda>b. (prop_name b p, val b p)) bs)
       \<and> form_kids f (fold button_click bs p) =
           form_kids f p @ map (\<lambda>(k, b). hidden_input k (prop_name b p) (val b p))
                              (zip [next_id p..<next_id p + length bs] bs)"
  using assms
proof (induction bs arbitrary: p)
  case Nil
  then show ?case by simp
next
  case (Cons b bs)
  let ?p1 = "button_click b p"
  from Cons.prems(3) have bf: "closest ''form'' [b] p = [f]" by simp
  note wf = button_click_wf [OF bf Cons.prems(1,2)]
  have st: "closest ''form'' [b'] ?p1 = [f] \<and> prop_name b' ?p1 = prop_name b' p
       \<and> val b' ?p1 = val b' p" if "b' \<in> set bs" for b'
  proof -
    from that Cons.prems(3) have c: "closest ''form'' [b'] p = [f]" by simp
    from closest_present [OF c Cons.prems(2)] have "b' < next_id p" by simp
    from button_click_elsewhere [OF bf this] c show ?thesis
      by (simp add: prop_name_def val_def)
  qed
  then have fs: "\<forall>b' \<in> set bs. closest ''form'' [b'] ?p1 = [f]" by simp
  from st have m: "map (\<lambda>b'. (prop_name b' ?p1, val b' ?p1)) bs = map (\<lambda>b'. (prop_name b' p, val b' p)) bs"
    by simp
  from st have z: "map (\<lambda>(k, b'). hidden_input k (prop_name b' ?p1) (val b' ?p1)) (zip ks bs) =
      map (\<lambda>(k, b'). hidden_input k (prop_name b' p) (val b' p)) (zip ks bs)" for ks
    by (auto dest: set_zip_rightD)
  from wf have n1: "next_id ?p1 = Suc (next_id p)" by simp
  have u: "[next_id p..<next_id p + length (b # bs)] = next_id p # [Suc (next_id p)..<Suc (next_id p) + length bs]"
    by (simp add: upt_conv_Cons del: upt_Suc)
  from Cons.IH [of ?p1] wf fs
  have ih: "serialize f (fold button_click bs ?p1) =
           serialize f ?p1 @ filter (\<lambda>(name, v). name \<noteq> []) (map (\<lambda>b. (prop_name b ?p1, val b ?p1)) bs)"
    and ih2: "form_kids f (fold button_click bs ?p1) =
           form_kids f ?p1 @ map (\<lambda>(k, b). hidden_input k (prop_name b ?p1) (val b ?p1))
                              (zip [next_id ?p1..<next_id ?p1 + length bs] bs)"
    by simp_all
  show ?case
    using ih ih2
    unfolding m z n1 u serialize_button_click [OF bf Cons.prems(1,2)]
      form_kids_button_click [OF bf Cons.prems(1,2)]
    by simp
qed

theorem button_clicks_accumulate_witness:
  "distinct (ids (live idle_page @ detached idle_page)) \<and> numbered idle_page
   \<and> closest ''form'' [4] idle_page = [2] \<and> closest ''form'' [5] idle_page = [2]
   \<and> serialize 2 (fold button_click [4, 5, 4] idle_page) =
        [(''q'', ''tea''), (''go'', ''yes''), (''go'', ''yes'')]
   \<and> form_kids 2 (fold button_click [4, 5, 4] idle_page) =
        form_kids 2 idle_page
        @ [hidden_input 6 ''go'' ''yes'', hidden_input 7 [] ''anonymous'',
           hidden_input 8 ''go'' ''yes'']"
proof -
  have a: "distinct (ids (live idle_page @ detached idle_page))" and b: "numbered idle_page"
    using idle_page_wf by simp_all
  have c: "\<forall>b \<in> set [4, 5, 4]. closest ''form'' [b] idle_page = [2]"
    using idle_page_form by simp
  have n: "next_id idle_page = 6" by (simp add: idle_page_def)
  have u: "[6..<9] = [6, 7, 8::nat]" by (simp add: upt_rec)
  show ?thesis
    using a b c button_clicks_accumulate [OF a b c]
    by (simp add: idle_page_buttons idle_page_fields n u)
qed

end
